theory Spec2Isabelle
  imports Main
begin

section \<open>JavaScript values used by the modules\<close>

text \<open>
  Strings are lists of code units; the model covers the code units 0..255, on which
  \<^verbatim>\<open>String.prototype.trim\<close> removes TAB, LF, VT, FF, CR, SPACE and NBSP.
\<close>

definition isWhiteSpace :: "char \<Rightarrow> bool" where
  "isWhiteSpace c = (c = CHR 0x09 \<or> c = CHR 0x0A \<or> c = CHR 0x0B \<or> c = CHR 0x0C
     \<or> c = CHR 0x0D \<or> c = CHR 0x20 \<or> c = CHR 0xA0)"

definition trim :: "string \<Rightarrow> string" where
  "trim s = rev (dropWhile isWhiteSpace (rev (dropWhile isWhiteSpace s)))"

text \<open>
  An exception value. Neither module declares an error class: every error is an instance
  of \<^verbatim>\<open>Error\<close>, with a message and, for the errors Node's \<^verbatim>\<open>fs\<close> raises, a
  \<^verbatim>\<open>code\<close> property.
\<close>

datatype errno = ENOENT | EEXIST | EISDIR | ENOTDIR | EBADF

datatype js_error = JsError (message: string) (code: "errno option")

definition error_name :: "js_error \<Rightarrow> string" where
  "error_name e = ''Error''"

definition new_Error :: "string \<Rightarrow> js_error" where
  "new_Error msg = JsError msg None"

section \<open>The file system, as the lock module sees it\<close>

text \<open>
  A path is the list of components of a normalised absolute path, so that
  \<^verbatim>\<open>path.join(storeDir, 'LOCK')\<close> appends one component. The file system maps a path to
  what is there: a regular file with its contents, a directory, or nothing. Only the
  failures that depend on this state are modelled (no permissions, no full disk, no
  descriptor limit). An operation looks at its own path first; where nothing is there,
  a regular file among the ancestors of the path makes it unreachable (ENOTDIR).
\<close>

type_synonym path = "string list"

datatype node = File string | Dir

type_synonym filesystem = "path \<Rightarrow> node option"

datatype fd = Fd path

definition path_join :: "path \<Rightarrow> string \<Rightarrow> path" where
  "path_join dir name = dir @ [name]"

definition render_path :: "path \<Rightarrow> string" where
  "render_path p = concat (map (\<lambda>c. ''/'' @ c) p)"

definition errno_text :: "errno \<Rightarrow> string" where
  "errno_text e = (case e of
      ENOENT \<Rightarrow> ''ENOENT: no such file or directory''
    | EEXIST \<Rightarrow> ''EEXIST: file already exists''
    | EISDIR \<Rightarrow> ''EISDIR: illegal operation on a directory''
    | ENOTDIR \<Rightarrow> ''ENOTDIR: not a directory''
    | EBADF \<Rightarrow> ''EBADF: bad file descriptor'')"

text \<open>
  The error of a failed system call: its message names the call and, for the calls that
  take a path, the path in quotes (\<^verbatim>\<open>read\<close> and \<^verbatim>\<open>write\<close> work on a descriptor and name
  none).
\<close>

definition system_error :: "errno \<Rightarrow> string \<Rightarrow> path option \<Rightarrow> js_error" where
  "system_error e syscall p =
     JsError (errno_text e @ '', '' @ syscall @
              (case p of None \<Rightarrow> [] | Some q \<Rightarrow> '' '' @ [CHR 0x27] @ render_path q @ [CHR 0x27]))
       (Some e)"

definition isRegularFile :: "filesystem \<Rightarrow> path \<Rightarrow> bool" where
  "isRegularFile fs p = (case fs p of Some (File _) \<Rightarrow> True | _ \<Rightarrow> False)"

text \<open>
  The proper ancestors of a path, from the root down. A path with a regular file among
  them cannot be reached.
\<close>

definition ancestors :: "path \<Rightarrow> path list" where
  "ancestors p = map (\<lambda>n. take n p) [0..<length p]"

definition underFile :: "filesystem \<Rightarrow> path \<Rightarrow> bool" where
  "underFile fs p = (\<exists>q \<in> set (ancestors p). isRegularFile fs q)"

text \<open>
  \<^verbatim>\<open>fs.mkdirSync(p, { recursive: true })\<close>: nothing to do on a directory, EEXIST on a
  regular file. Where nothing is at \<^verbatim>\<open>p\<close> it creates \<^verbatim>\<open>p\<close> and its missing ancestors,
  unless a regular file is among the ancestors (ENOTDIR).
\<close>

definition createDirectories :: "filesystem \<Rightarrow> path \<Rightarrow> filesystem" where
  "createDirectories fs p =
     (\<lambda>q. if q \<in> set (p # ancestors p) \<and> fs q = None then Some Dir else fs q)"

definition mkdirSync_recursive :: "filesystem \<Rightarrow> path \<Rightarrow> (js_error + unit) \<times> filesystem" where
  "mkdirSync_recursive fs p =
     (case fs p of
        Some Dir \<Rightarrow> (Inr (), fs)
      | Some (File _) \<Rightarrow> (Inl (system_error EEXIST ''mkdir'' (Some p)), fs)
      | None \<Rightarrow>
          if underFile fs p then (Inl (system_error ENOTDIR ''mkdir'' (Some p)), fs)
          else (Inr (), createDirectories fs p))"

text \<open>
  \<^verbatim>\<open>fs.openSync(p, 'wx')\<close>: create exclusively. It fails with EEXIST when anything is at
  \<^verbatim>\<open>p\<close>, and needs the parent to be a directory (ENOTDIR below a regular file, ENOENT
  where the parent is missing); otherwise it creates an empty file.
\<close>

definition openSync_wx :: "filesystem \<Rightarrow> path \<Rightarrow> (js_error + fd) \<times> filesystem" where
  "openSync_wx fs p =
     (case fs p of
        Some _ \<Rightarrow> (Inl (system_error EEXIST ''open'' (Some p)), fs)
      | None \<Rightarrow>
          (case fs (butlast p) of
             Some Dir \<Rightarrow> (Inr (Fd p), fs(p \<mapsto> File []))
           | Some (File _) \<Rightarrow> (Inl (system_error ENOTDIR ''open'' (Some p)), fs)
           | None \<Rightarrow>
               if underFile fs p then (Inl (system_error ENOTDIR ''open'' (Some p)), fs)
               else (Inl (system_error ENOENT ''open'' (Some p)), fs)))"

text \<open>\<^verbatim>\<open>fs.writeFileSync(fd, data)\<close> writes from position 0 of the open file.\<close>

definition writeFileSync_fd :: "filesystem \<Rightarrow> fd \<Rightarrow> string \<Rightarrow> (js_error + unit) \<times> filesystem" where
  "writeFileSync_fd fs d data =
     (case d of Fd p \<Rightarrow>
        (case fs p of
           Some (File old) \<Rightarrow> (Inr (), fs(p \<mapsto> File (data @ drop (length data) old)))
         | _ \<Rightarrow> (Inl (system_error EBADF ''write'' None), fs)))"

definition closeSync :: "filesystem \<Rightarrow> fd \<Rightarrow> (js_error + unit) \<times> filesystem" where
  "closeSync fs d = (Inr (), fs)"

text \<open>
  \<^verbatim>\<open>fs.readFileSync(p, 'utf8')\<close> leaves the file system as it is. It opens the path
  (ENOENT where nothing is there, ENOTDIR below a regular file) and reads it (EISDIR on a
  directory).
\<close>

definition readFileSync :: "filesystem \<Rightarrow> path \<Rightarrow> (js_error + string) \<times> filesystem" where
  "readFileSync fs p =
     (case fs p of
        Some (File c) \<Rightarrow> (Inr c, fs)
      | Some Dir \<Rightarrow> (Inl (system_error EISDIR ''read'' None), fs)
      | None \<Rightarrow>
          if underFile fs p then (Inl (system_error ENOTDIR ''open'' (Some p)), fs)
          else (Inl (system_error ENOENT ''open'' (Some p)), fs))"

text \<open>
  \<^verbatim>\<open>fs.unlinkSync(p)\<close> removes a file; it refuses a directory, and reports ENOENT where
  nothing is at the path, ENOTDIR where the path lies below a regular file.
\<close>

definition unlinkSync :: "filesystem \<Rightarrow> path \<Rightarrow> (js_error + unit) \<times> filesystem" where
  "unlinkSync fs p =
     (case fs p of
        Some (File _) \<Rightarrow> (Inr (), fs(p := None))
      | Some Dir \<Rightarrow> (Inl (system_error EISDIR ''unlink'' (Some p)), fs)
      | None \<Rightarrow>
          if underFile fs p then (Inl (system_error ENOTDIR ''unlink'' (Some p)), fs)
          else (Inl (system_error ENOENT ''unlink'' (Some p)), fs))"

section \<open>store-lock.js\<close>

text \<open>
  The process identity and the clock reading that \<^verbatim>\<open>lockPayload\<close> takes from its
  environment: \<^verbatim>\<open>process.pid\<close> and \<^verbatim>\<open>new Date().toISOString()\<close>.
\<close>

record process_env =
  pid :: nat
  nowISO :: string

fun string_of_nat :: "nat \<Rightarrow> string" where
  "string_of_nat n =
     (if n < 10 then [''0123456789'' ! n]
      else string_of_nat (n div 10) @ [''0123456789'' ! (n mod 10)])"

declare string_of_nat.simps [simp del]

text \<open>\<^verbatim>\<open>JSON.stringify\<close> of a string: quoted, with the escapes of the JSON grammar.\<close>

definition hex_digit :: "nat \<Rightarrow> char" where
  "hex_digit n = ''0123456789abcdef'' ! n"

definition json_escape :: "char \<Rightarrow> string" where
  "json_escape c =
     (if c = CHR 0x22 then [CHR 0x5C, CHR 0x22]
      else if c = CHR 0x5C then [CHR 0x5C, CHR 0x5C]
      else if c = CHR 0x08 then [CHR 0x5C, CHR ''b'']
      else if c = CHR 0x0C then [CHR 0x5C, CHR ''f'']
      else if c = CHR 0x0A then [CHR 0x5C, CHR ''n'']
      else if c = CHR 0x0D then [CHR 0x5C, CHR ''r'']
      else if c = CHR 0x09 then [CHR 0x5C, CHR ''t'']
      else if (of_char c :: nat) < 32
        then [CHR 0x5C, CHR ''u'', CHR ''0'', CHR ''0'',
              hex_digit (of_char c div 16), hex_digit (of_char c mod 16)]
      else [c])"

definition json_string :: "string \<Rightarrow> string" where
  "json_string s = [CHR 0x22] @ concat (map json_escape s) @ [CHR 0x22]"

definition lockPayload :: "process_env \<Rightarrow> string" where
  "lockPayload env =
     [CHR ''{''] @ json_string ''pid'' @ '':'' @ string_of_nat (pid env) @ '','' @
     json_string ''startedAt'' @ '':'' @ json_string (nowISO env) @ [CHR ''}'']"

record lock_status =
  exists :: bool
  path :: path
  info :: "string option"

definition readStoreLock :: "filesystem \<Rightarrow> path \<Rightarrow> (js_error + lock_status) \<times> filesystem" where
  "readStoreLock fs storeDir =
     (let lockPath = path_join storeDir ''LOCK'' in
      case readFileSync fs lockPath of
        (Inr raw, fs') \<Rightarrow> (Inr \<lparr>exists = True, path = lockPath, info = Some (trim raw)\<rparr>, fs')
      | (Inl error, fs') \<Rightarrow>
          if code error = Some ENOENT
          then (Inr \<lparr>exists = False, path = lockPath, info = None\<rparr>, fs')
          else (Inl error, fs'))"

text \<open>
  The closure that \<^verbatim>\<open>acquireStoreLock\<close> returns: the \<^verbatim>\<open>lockPath\<close> it captured and its
  \<^verbatim>\<open>released\<close> flag.
\<close>

record release_closure =
  closure_lockPath :: path
  closure_released :: bool

text \<open>The body of the \<^verbatim>\<open>try\<close> block: open exclusively, write the payload, close.\<close>

definition createMarker :: "process_env \<Rightarrow> filesystem \<Rightarrow> path \<Rightarrow> (js_error + unit) \<times> filesystem" where
  "createMarker env fs lockPath =
     (case openSync_wx fs lockPath of
        (Inl error, fs1) \<Rightarrow> (Inl error, fs1)
      | (Inr d, fs1) \<Rightarrow>
          (case writeFileSync_fd fs1 d (lockPayload env) of
             (Inl error, fs2) \<Rightarrow> (Inl error, fs2)
           | (Inr _, fs2) \<Rightarrow> closeSync fs2 d))"

definition acquireStoreLock ::
  "process_env \<Rightarrow> filesystem \<Rightarrow> path \<Rightarrow> (js_error + release_closure) \<times> filesystem" where
  "acquireStoreLock env fs storeDir =
     (let lockPath = path_join storeDir ''LOCK'' in
      case mkdirSync_recursive fs storeDir of
        (Inl error, fs1) \<Rightarrow> (Inl error, fs1)
      | (Inr _, fs1) \<Rightarrow>
          (case createMarker env fs1 lockPath of
             (Inl error, fs2) \<Rightarrow>
               if code error = Some EEXIST then
                 (case readStoreLock fs2 storeDir of
                    (Inl error', fs3) \<Rightarrow> (Inl error', fs3)
                  | (Inr st, fs3) \<Rightarrow>
                      (let details =
                         (case info st of
                            None \<Rightarrow> []
                          | Some i \<Rightarrow> if i = [] then [] else '' ('' @ i @ '')'')
                       in (Inl (new_Error (''Store is locked by another process'' @ details)), fs3)))
               else (Inl error, fs2)
           | (Inr _, fs2) \<Rightarrow> (Inr \<lparr>closure_lockPath = lockPath, closure_released = False\<rparr>, fs2)))"

text \<open>One call of the returned closure.\<close>

definition release ::
  "release_closure \<Rightarrow> filesystem \<Rightarrow> (js_error + unit) \<times> release_closure \<times> filesystem" where
  "release r fs =
     (if closure_released r then (Inr (), r, fs)
      else
        (let r' = r\<lparr>closure_released := True\<rparr> in
         case unlinkSync fs (closure_lockPath r') of
           (Inr _, fs') \<Rightarrow> (Inr (), r', fs')
         | (Inl error, fs') \<Rightarrow>
             if code error \<noteq> Some ENOENT then (Inl error, r', fs') else (Inr (), r', fs')))"

section \<open>cli.js\<close>

subsection \<open>Numbers\<close>

text \<open>
  Every number \<^verbatim>\<open>parseDuration\<close> computes is a non-negative integer or
  \<^verbatim>\<open>Infinity\<close>. A double holds an integer below \<open>2^53\<close> exactly; a larger one is rounded
  to 53 significant bits, ties to even, and is \<^verbatim>\<open>Infinity\<close> when that rounding reaches
  \<open>2^1024\<close>.
\<close>

datatype js_number = Finite nat | PosInfinity

fun bitlen :: "nat \<Rightarrow> nat" where
  "bitlen n = (if n = 0 then 0 else Suc (bitlen (n div 2)))"

declare bitlen.simps [simp del]

definition roundToDouble :: "nat \<Rightarrow> js_number" where
  "roundToDouble n =
     (if n < 2 ^ 53 then Finite n
      else
        (let e = bitlen n - 53;
             q = n div 2 ^ e;
             r = n mod 2 ^ e;
             half = 2 ^ (e - 1);
             q' = (if half < r \<or> (r = half \<and> odd q) then q + 1 else q)
         in if 2 ^ 1024 \<le> q' * 2 ^ e then PosInfinity else Finite (q' * 2 ^ e)))"

text \<open>\<^verbatim>\<open>x * k\<close> for a positive integer literal \<open>k\<close>: the exact product, rounded.\<close>

definition js_times :: "js_number \<Rightarrow> nat \<Rightarrow> js_number" where
  "js_times x k = (case x of Finite a \<Rightarrow> roundToDouble (a * k) | PosInfinity \<Rightarrow> PosInfinity)"

definition isDigit :: "char \<Rightarrow> bool" where
  "isDigit c = (48 \<le> (of_char c :: nat) \<and> (of_char c :: nat) \<le> 57)"

definition decimal_value :: "string \<Rightarrow> nat" where
  "decimal_value ds = foldl (\<lambda>acc c. 10 * acc + (of_char c - 48)) 0 ds"

text \<open>\<^verbatim>\<open>Number(s)\<close> for a non-empty string of decimal digits.\<close>

definition Number :: "string \<Rightarrow> js_number" where
  "Number ds = roundToDouble (decimal_value ds)"

subsection \<open>Strings\<close>

definition startsWith :: "string \<Rightarrow> string \<Rightarrow> bool" where
  "startsWith s p = (take (length p) s = p)"

definition toLowerCase :: "string \<Rightarrow> string" where
  "toLowerCase s =
     map (\<lambda>c. let n = (of_char c :: nat) in
            if (65 \<le> n \<and> n \<le> 90) \<or> (192 \<le> n \<and> n \<le> 222 \<and> n \<noteq> 215)
            then char_of (n + 32) else c) s"

text \<open>\<^verbatim>\<open>s.split('=')\<close>: the pieces between the separators, at least one.\<close>

fun split :: "char \<Rightarrow> string \<Rightarrow> string list" where
  "split sep [] = [[]]"
| "split sep (c # cs) =
     (if c = sep then [] # split sep cs
      else (case split sep cs of p # ps \<Rightarrow> (c # p) # ps | [] \<Rightarrow> [[c]]))"

subsection \<open>writeError\<close>

text \<open>The text written to the standard error stream.\<close>

definition writeError :: "js_error \<Rightarrow> bool \<Rightarrow> string" where
  "writeError error asJson =
     (let message = message error in
      if asJson
      then [CHR ''{''] @ json_string ''ok'' @ '':false,'' @ json_string ''error'' @ '':'' @
           json_string message @ [CHR ''}''] @ [CHR 0x0A]
      else message @ [CHR 0x0A])"

subsection \<open>parseDuration\<close>

datatype js_value = JSString string | JSOther

text \<open>
  The match of \<^verbatim>\<open>/^(\d+)(ms|s|m|h)?$/i\<close>: the digits of group 1 and the text of group 2
  when it took part. Under the \<^verbatim>\<open>i\<close> flag a letter of the pattern matches itself in
  either case and no other code unit.
\<close>

definition matchDuration :: "string \<Rightarrow> (string \<times> string option) option" where
  "matchDuration raw =
     (let digits = takeWhile isDigit raw; rest = dropWhile isDigit raw in
      if digits = [] then None
      else if rest = [] then Some (digits, None)
      else if rest \<in> set [''ms'', ''mS'', ''Ms'', ''MS'', ''s'', ''S'', ''m'', ''M'', ''h'', ''H'']
        then Some (digits, Some rest)
      else None)"

definition parseDuration :: "js_value \<Rightarrow> js_error + js_number option" where
  "parseDuration v =
     (case v of
        JSOther \<Rightarrow> Inr None
      | JSString value \<Rightarrow>
          if trim value = [] then Inr None
          else
            (let raw = trim value in
             case matchDuration raw of
               None \<Rightarrow> Inl (new_Error (''Invalid duration: '' @ value))
             | Some (digits, group2) \<Rightarrow>
                 (let amount = Number digits;
                      unit = toLowerCase (case group2 of None \<Rightarrow> ''s'' | Some u \<Rightarrow> u)
                  in if unit = ''ms'' then Inr (Some amount)
                     else if unit = ''s'' then Inr (Some (js_times amount 1000))
                     else if unit = ''m'' then Inr (Some (js_times (js_times amount 60) 1000))
                     else if unit = ''h''
                       then Inr (Some (js_times (js_times (js_times amount 60) 60) 1000))
                     else Inr (Some (js_times amount 1000)))))"

subsection \<open>parseGlobalFlags\<close>

record global_flags =
  flag_store :: "string option"
  flag_json :: bool
  flag_help :: bool

text \<open>The loop, from index \<open>i\<close> on: the flags so far and the arguments left.\<close>

fun parseGlobalFlags_from :: "global_flags \<Rightarrow> string list \<Rightarrow> js_error + (global_flags \<times> string list)" where
  "parseGlobalFlags_from flags [] = Inr (flags, [])"
| "parseGlobalFlags_from flags (arg # later) =
     (if \<not> startsWith arg ''-'' then Inr (flags, arg # later)
      else if arg = ''--json'' then parseGlobalFlags_from (flags\<lparr>flag_json := True\<rparr>) later
      else if arg = ''--help'' \<or> arg = ''-h''
        then parseGlobalFlags_from (flags\<lparr>flag_help := True\<rparr>) later
      else if arg = ''--store'' then
        (case later of
           [] \<Rightarrow> Inl (new_Error ''--store requires a value'')
         | nextArg # later' \<Rightarrow>
             if nextArg = [] then Inl (new_Error ''--store requires a value'')
             else parseGlobalFlags_from (flags\<lparr>flag_store := Some nextArg\<rparr>) later')
      else if startsWith arg ''--store=''
        then parseGlobalFlags_from (flags\<lparr>flag_store := Some (drop 8 arg)\<rparr>) later
      else Inr (flags, arg # later))"

definition parseGlobalFlags :: "string list \<Rightarrow> js_error + (global_flags \<times> string list)" where
  "parseGlobalFlags args =
     parseGlobalFlags_from \<lparr>flag_store = None, flag_json = False, flag_help = False\<rparr> args"

subsection \<open>parseFlags\<close>

datatype flag_type = BooleanFlag | StringFlag

datatype flag_value = FlagTrue | FlagString string

type_synonym flag_spec = "(string \<times> flag_type) list"

type_synonym flags = "string \<Rightarrow> flag_value option"

text \<open>
  \<^verbatim>\<open>spec[key]\<close> on an object literal also finds the properties every object inherits.
  Such a rule is truthy and its \<^verbatim>\<open>type\<close> is not \<^verbatim>\<open>'boolean'\<close>, so \<^verbatim>\<open>parseFlags\<close>
  treats the key as an option that takes a value.
\<close>

definition inheritedKeys :: "string list" where
  "inheritedKeys = [''constructor'', ''__proto__'', ''hasOwnProperty'', ''isPrototypeOf'',
     ''propertyIsEnumerable'', ''toLocaleString'', ''toString'', ''valueOf'',
     ''__defineGetter__'', ''__defineSetter__'', ''__lookupGetter__'', ''__lookupSetter__'']"

definition lookupRule :: "flag_spec \<Rightarrow> string \<Rightarrow> flag_type option" where
  "lookupRule spec key =
     (case map_of spec key of
        Some t \<Rightarrow> Some t
      | None \<Rightarrow> if key \<in> set inheritedKeys then Some StringFlag else None)"

text \<open>\<^verbatim>\<open>flags[key] = v\<close>; assigning a primitive to \<^verbatim>\<open>__proto__\<close> changes nothing.\<close>

definition setFlag :: "flags \<Rightarrow> string \<Rightarrow> flag_value \<Rightarrow> flags" where
  "setFlag flags key v = (if key = ''__proto__'' then flags else flags(key \<mapsto> v))"

function parseFlags_from ::
  "flag_spec \<Rightarrow> flags \<Rightarrow> string list \<Rightarrow> string list \<Rightarrow> js_error + (flags \<times> string list)" where
  "parseFlags_from spec flags rest [] = Inr (flags, rest)"
| "parseFlags_from spec flags rest (arg # later) =
     (if \<not> startsWith arg ''--'' then parseFlags_from spec flags (rest @ [arg]) later
      else
        (let parts = split CHR ''='' arg;
             rawKey = hd parts;
             rawValue = (if 1 < length parts then Some (parts ! 1) else None);
             key = drop 2 rawKey
         in case lookupRule spec key of
              None \<Rightarrow> parseFlags_from spec flags (rest @ [arg]) later
            | Some BooleanFlag \<Rightarrow> parseFlags_from spec (setFlag flags key FlagTrue) rest later
            | Some StringFlag \<Rightarrow>
                (case (case rawValue of Some v \<Rightarrow> Some v | None \<Rightarrow> (case later of [] \<Rightarrow> None | n # _ \<Rightarrow> Some n)) of
                   None \<Rightarrow> Inl (new_Error (''--'' @ key @ '' requires a value''))
                 | Some value \<Rightarrow>
                     parseFlags_from spec (setFlag flags key (FlagString value)) rest
                       (if rawValue = None \<or> rawValue = Some [] then drop 1 later else later))))"
  by pat_completeness auto
termination
  by (relation "measure (\<lambda>(spec, flags, rest, args). length args)") auto

definition parseFlags :: "string list \<Rightarrow> flag_spec \<Rightarrow> js_error + (flags \<times> string list)" where
  "parseFlags args spec = parseFlags_from spec Map.empty [] args"

subsection \<open>resolveStoreDir\<close>

text \<open>
  What the command line interface takes from its surroundings: \<^verbatim>\<open>path.resolve\<close> (which
  depends on the working directory) and the constant \<^verbatim>\<open>DEFAULT_STORE_DIR\<close>.
\<close>

record cli_env =
  path_resolve :: "string \<Rightarrow> path"
  DEFAULT_STORE_DIR :: path

definition resolveStoreDir :: "cli_env \<Rightarrow> string option \<Rightarrow> path" where
  "resolveStoreDir cfg storeOverride =
     (case storeOverride of
        None \<Rightarrow> DEFAULT_STORE_DIR cfg
      | Some s \<Rightarrow> if s = [] then DEFAULT_STORE_DIR cfg else path_resolve cfg s)"

subsection \<open>waitForIdle\<close>

text \<open>The snapshot \<^verbatim>\<open>service.getQueueStats()\<close> returns.\<close>

record queue_stats =
  pending :: nat
  in_progress :: nat
  idle_jobs :: nat
  error_jobs :: nat
  processing :: bool

text \<open>
  What one turn of the loop reads: the snapshot, the value of \<^verbatim>\<open>Date.now()\<close> where
  \<^verbatim>\<open>idleStart\<close> is set, and its value in the comparison with \<^verbatim>\<open>idleExitMs\<close>. Between two
  turns lies \<^verbatim>\<open>await delay(500)\<close>.
\<close>

record poll =
  stats :: queue_stats
  nowAtStart :: int
  nowAtCheck :: int

text \<open>\<^verbatim>\<open>!idleStart\<close> holds for \<^verbatim>\<open>null\<close> and for the number 0.\<close>

definition unset :: "int option \<Rightarrow> bool" where
  "unset idleStart = (idleStart = None \<or> idleStart = Some 0)"

text \<open>
  The loop over the turns that the trace \<open>polls\<close> offers, entered with the current
  \<^verbatim>\<open>idleStart\<close>. The result is the index of the turn in which the function returns;
  \<open>None\<close> when it is still waiting after the last turn of the trace.
\<close>

fun waitForIdle_from :: "int \<Rightarrow> int option \<Rightarrow> poll list \<Rightarrow> nat option" where
  "waitForIdle_from idleExitMs idleStart [] = None"
| "waitForIdle_from idleExitMs idleStart (p # polls) =
     (let active = pending (stats p) + in_progress (stats p) in
      if \<not> processing (stats p) \<and> active = 0 then
        (let idleStart' = (if unset idleStart then nowAtStart p else the idleStart) in
         if idleExitMs \<le> nowAtCheck p - idleStart' then Some 0
         else map_option Suc (waitForIdle_from idleExitMs (Some idleStart') polls))
      else map_option Suc (waitForIdle_from idleExitMs None polls))"

definition waitForIdle :: "int \<Rightarrow> poll list \<Rightarrow> nat option" where
  "waitForIdle idleExitMs polls = waitForIdle_from idleExitMs None polls"

subsection \<open>The command handlers\<close>

text \<open>
  Each handler is followed up to the point where it hands over to the collaborators
  \<^verbatim>\<open>TelegramClient\<close> and \<^verbatim>\<open>MessageSyncService\<close>, which these sources do not contain. The
  session value records what the handler has established by then.
\<close>

record sync_session =
  sync_release :: release_closure
  sync_idleExitMs :: "js_number option"
  sync_follow :: bool

record doctor_payload =
  payload_storeDir :: path
  lockHeld :: bool
  lockInfo :: "string option"

datatype session =
    AuthStatus
  | AuthLogout release_closure
  | AuthLogin release_closure bool
  | Sync sync_session
  | Doctor doctor_payload bool

text \<open>Truthiness of a flag, and \<^verbatim>\<open>flags[key] || fallback\<close> for a string fallback.\<close>

definition truthy :: "flag_value option \<Rightarrow> bool" where
  "truthy v = (case v of None \<Rightarrow> False | Some FlagTrue \<Rightarrow> True | Some (FlagString s) \<Rightarrow> s \<noteq> [])"

definition orElse :: "flag_value option \<Rightarrow> string \<Rightarrow> js_value" where
  "orElse v fallback =
     (case v of
        None \<Rightarrow> JSString fallback
      | Some FlagTrue \<Rightarrow> JSOther
      | Some (FlagString s) \<Rightarrow> if s = [] then JSString fallback else JSString s)"

definition runAuth ::
  "cli_env \<Rightarrow> process_env \<Rightarrow> global_flags \<Rightarrow> string list \<Rightarrow> filesystem \<Rightarrow> (js_error + session) \<times> filesystem" where
  "runAuth cfg env globalFlags args fs =
     (case parseFlags args [(''follow'', BooleanFlag)] of
        Inl error \<Rightarrow> (Inl error, fs)
      | Inr (flags, rest) \<Rightarrow>
          (let dir = resolveStoreDir cfg (flag_store globalFlags) in
           if rest \<noteq> [] \<and> hd rest = ''status'' then (Inr AuthStatus, fs)
           else if rest \<noteq> [] \<and> hd rest = ''logout'' then
             (case acquireStoreLock env fs dir of
                (Inl error, fs') \<Rightarrow> (Inl error, fs')
              | (Inr rel, fs') \<Rightarrow> (Inr (AuthLogout rel), fs'))
           else
             (case acquireStoreLock env fs dir of
                (Inl error, fs') \<Rightarrow> (Inl error, fs')
              | (Inr rel, fs') \<Rightarrow> (Inr (AuthLogin rel (truthy (flags ''follow''))), fs'))))"

definition runSync ::
  "cli_env \<Rightarrow> process_env \<Rightarrow> global_flags \<Rightarrow> string list \<Rightarrow> filesystem \<Rightarrow> (js_error + session) \<times> filesystem" where
  "runSync cfg env globalFlags args fs =
     (case parseFlags args [(''once'', BooleanFlag), (''follow'', BooleanFlag), (''idle-exit'', StringFlag)] of
        Inl error \<Rightarrow> (Inl error, fs)
      | Inr (flags, rest) \<Rightarrow>
          (let dir = resolveStoreDir cfg (flag_store globalFlags) in
           case acquireStoreLock env fs dir of
             (Inl error, fs') \<Rightarrow> (Inl error, fs')
           | (Inr rel, fs') \<Rightarrow>
               (case parseDuration (orElse (flags ''idle-exit'') ''30s'') of
                  Inl error \<Rightarrow> (Inl error, fs')
                | Inr ms \<Rightarrow>
                    (Inr (Sync \<lparr>sync_release = rel, sync_idleExitMs = ms,
                                sync_follow = (truthy (flags ''follow'') \<or> \<not> truthy (flags ''once''))\<rparr>),
                     fs'))))"

definition runDoctor ::
  "cli_env \<Rightarrow> global_flags \<Rightarrow> string list \<Rightarrow> filesystem \<Rightarrow> (js_error + session) \<times> filesystem" where
  "runDoctor cfg globalFlags args fs =
     (case parseFlags args [(''connect'', BooleanFlag)] of
        Inl error \<Rightarrow> (Inl error, fs)
      | Inr (flags, rest) \<Rightarrow>
          (let dir = resolveStoreDir cfg (flag_store globalFlags) in
           case readStoreLock fs dir of
             (Inl error, fs') \<Rightarrow> (Inl error, fs')
           | (Inr lock, fs') \<Rightarrow>
               (Inr (Doctor \<lparr>payload_storeDir = dir, lockHeld = exists lock, lockInfo = info lock\<rparr>
                       (truthy (flags ''connect''))),
                fs')))"

text \<open>The line of the plain report that shows the lock.\<close>

definition lockedLine :: "doctor_payload \<Rightarrow> string" where
  "lockedLine payload =
     ''LOCKED: '' @ (if lockHeld payload then ''true'' else ''false'') @
     (case lockInfo payload of
        None \<Rightarrow> []
      | Some i \<Rightarrow> if i = [] then [] else '' ('' @ i @ '')'')"

subsection \<open>main\<close>

datatype outcome =
    UsagePrinted
  | HandedOver session
  | Exited nat string

definition main ::
  "cli_env \<Rightarrow> process_env \<Rightarrow> string list \<Rightarrow> filesystem \<Rightarrow> outcome \<times> filesystem" where
  "main cfg env argv fs =
     (let caught = (\<lambda>error. Exited 1 (writeError error (''--json'' \<in> set argv))) in
      case parseGlobalFlags (drop 2 argv) of
        Inl error \<Rightarrow> (caught error, fs)
      | Inr (globalFlags, rest) \<Rightarrow>
          if flag_help globalFlags \<or> rest = [] then (UsagePrinted, fs)
          else
            (let command = hd rest; args = tl rest;
                 handled = (\<lambda>r. case r of
                                 (Inl error, fs') \<Rightarrow> (caught error, fs')
                               | (Inr s, fs') \<Rightarrow> (HandedOver s, fs'))
             in if command = ''auth'' then handled (runAuth cfg env globalFlags args fs)
                else if command = ''sync'' then handled (runSync cfg env globalFlags args fs)
                else if command = ''doctor'' then handled (runDoctor cfg globalFlags args fs)
                else (UsagePrinted, fs)))"

section \<open>Vocabulary of the properties\<close>

text \<open>
  A lock marker exists for a store directory when a regular file is at its \<^verbatim>\<open>LOCK\<close> path.
\<close>

definition markerExists :: "filesystem \<Rightarrow> path \<Rightarrow> bool" where
  "markerExists fs dir = isRegularFile fs (path_join dir ''LOCK'')"

text \<open>
  The failure the design calls LockHeldError is the \<^verbatim>\<open>Error\<close> that \<^verbatim>\<open>acquireStoreLock\<close>
  constructs itself: it has no \<^verbatim>\<open>code\<close>, and its message starts with the fixed sentence.
  \<open>lockDetails\<close> is the suffix built from the marker's contents.
\<close>

definition isLockHeldError :: "js_error \<Rightarrow> bool" where
  "isLockHeldError e =
     (code e = None \<and> take 34 (message e) = ''Store is locked by another process'')"

definition lockDetails :: "string \<Rightarrow> string" where
  "lockDetails c = (if trim c = [] then [] else '' ('' @ trim c @ '')'')"

text \<open>
  Reading the owner back from the text of a marker: the digits after \<^verbatim>\<open>{"pid":\<close> as a
  decimal number, and the text between the quotes after \<^verbatim>\<open>,"startedAt":\<close>. A text is
  plain when \<^verbatim>\<open>JSON.stringify\<close> escapes none of its characters, as in every time stamp
  that \<^verbatim>\<open>toISOString\<close> produces.
\<close>

definition recordedPid :: "string \<Rightarrow> nat" where
  "recordedPid marker = decimal_value (takeWhile isDigit (drop 7 marker))"

definition recordedStartedAt :: "string \<Rightarrow> string" where
  "recordedStartedAt marker =
     butlast (butlast (drop 14 (dropWhile isDigit (drop 7 marker))))"

definition plainText :: "string \<Rightarrow> bool" where
  "plainText s = list_all (\<lambda>c. json_escape c = [c]) s"

text \<open>Calling the release closure \<open>n\<close> times in a row; the results in order.\<close>

fun release_times ::
  "nat \<Rightarrow> release_closure \<Rightarrow> filesystem \<Rightarrow> (js_error + unit) list \<times> release_closure \<times> filesystem" where
  "release_times 0 r fs = ([], r, fs)"
| "release_times (Suc n) r fs =
     (case release r fs of (res, r', fs') \<Rightarrow>
        (case release_times n r' fs' of (rs, r'', fs'') \<Rightarrow> (res # rs, r'', fs'')))"

text \<open>Sample values for the instances below.\<close>

definition sampleDir :: path where
  "sampleDir = [''home'', ''u'', ''.frogiverse'']"

definition sampleEnv :: process_env where
  "sampleEnv = \<lparr>pid = 4242, nowISO = ''2024-01-01T00:00:00.000Z''\<rparr>"

definition otherEnv :: process_env where
  "otherEnv = \<lparr>pid = 4243, nowISO = ''2024-01-01T00:00:05.000Z''\<rparr>"

definition sampleClosure :: release_closure where
  "sampleClosure = \<lparr>closure_lockPath = path_join sampleDir ''LOCK'', closure_released = False\<rparr>"

definition lockedStore :: filesystem where
  "lockedStore = [sampleDir \<mapsto> Dir, path_join sampleDir ''LOCK'' \<mapsto> File (lockPayload sampleEnv)]"

definition staleStore :: filesystem where
  "staleStore = [sampleDir \<mapsto> Dir, path_join sampleDir ''LOCK'' \<mapsto> File ''left by a process that is gone'']"

definition sampleCfg :: cli_env where
  "sampleCfg = \<lparr>path_resolve = (\<lambda>s. [''work'', s]), DEFAULT_STORE_DIR = sampleDir\<rparr>"

definition noGlobalFlags :: global_flags where
  "noGlobalFlags = \<lparr>flag_store = None, flag_json = False, flag_help = False\<rparr>"

text \<open>Whether a text occurs in another.\<close>

fun containsText :: "string \<Rightarrow> string \<Rightarrow> bool" where
  "containsText needle [] = (needle = [])"
| "containsText needle (c # cs) =
     (take (length needle) (c # cs) = needle \<or> containsText needle cs)"

text \<open>What an inspection reports of the marker: its trimmed contents, if it exists.\<close>

definition lockReport :: "filesystem \<Rightarrow> path \<Rightarrow> string option" where
  "lockReport fs dir =
     (case fs (path_join dir ''LOCK'') of Some (File c) \<Rightarrow> Some (trim c) | _ \<Rightarrow> None)"

text \<open>
  The command lines (the command and its arguments) whose handler gets as far as
  \<^verbatim>\<open>acquireStoreLock\<close>: \<^verbatim>\<open>sync\<close>, and \<^verbatim>\<open>auth\<close> with a subcommand other than \<^verbatim>\<open>status\<close>, when
  their flags parse.
\<close>

definition acquiringCommand :: "string list \<Rightarrow> bool" where
  "acquiringCommand rest =
     (case rest of
        [] \<Rightarrow> False
      | command # args \<Rightarrow>
          if command = ''auth'' then
            (case parseFlags args [(''follow'', BooleanFlag)] of
               Inl _ \<Rightarrow> False
             | Inr (flags, r) \<Rightarrow> \<not> (r \<noteq> [] \<and> hd r = ''status''))
          else if command = ''sync'' then
            (case parseFlags args
                    [(''once'', BooleanFlag), (''follow'', BooleanFlag), (''idle-exit'', StringFlag)] of
               Inl _ \<Rightarrow> False
             | Inr _ \<Rightarrow> True)
          else False)"

text \<open>
  The grammar of a duration: digits, then nothing or one of the unit suffixes in either
  case, between runs of white space. \<open>unitFactor\<close> gives the milliseconds per unit, a
  missing suffix counting as seconds.
\<close>

definition unitFactor :: "string \<Rightarrow> nat option" where
  "unitFactor u =
     (if u = [] \<or> u \<in> set [''s'', ''S''] then Some 1000
      else if u \<in> set [''ms'', ''mS'', ''Ms'', ''MS''] then Some 1
      else if u \<in> set [''m'', ''M''] then Some 60000
      else if u \<in> set [''h'', ''H''] then Some 3600000
      else None)"

definition durationParts :: "string \<Rightarrow> string \<Rightarrow> string \<Rightarrow> string \<Rightarrow> bool" where
  "durationParts ws1 digits u ws2 =
     (digits \<noteq> [] \<and> (\<forall>c\<in>set digits. isDigit c) \<and> unitFactor u \<noteq> None
      \<and> (\<forall>c\<in>set ws1. isWhiteSpace c) \<and> (\<forall>c\<in>set ws2. isWhiteSpace c))"

definition durationText :: "string \<Rightarrow> bool" where
  "durationText v = (\<exists>ws1 digits u ws2. v = ws1 @ digits @ u @ ws2 \<and> durationParts ws1 digits u ws2)"

text \<open>The chain of multiplications the function applies for a factor.\<close>

definition scaled :: "js_number \<Rightarrow> nat \<Rightarrow> js_number" where
  "scaled x f =
     (if f = 1 then x
      else if f = 1000 then js_times x 1000
      else if f = 60000 then js_times (js_times x 60) 1000
      else js_times (js_times (js_times x 60) 60) 1000)"

text \<open>
  The rules \<^verbatim>\<open>runSync\<close> gives to \<^verbatim>\<open>parseFlags\<close>. An argument names a key when it starts
  with two dashes and the key follows them, up to the first \<^verbatim>\<open>=\<close>. A command line is
  value-free when none of its options takes a value.
\<close>

definition syncFlags :: flag_spec where
  "syncFlags = [(''once'', BooleanFlag), (''follow'', BooleanFlag), (''idle-exit'', StringFlag)]"

definition flagKey :: "string \<Rightarrow> string" where
  "flagKey arg = drop 2 (hd (split CHR ''='' arg))"

definition named :: "string \<Rightarrow> string list \<Rightarrow> bool" where
  "named key args = (\<exists>a\<in>set args. startsWith a ''--'' \<and> flagKey a = key)"

definition valueFree :: "flag_spec \<Rightarrow> string list \<Rightarrow> bool" where
  "valueFree spec args =
     (\<forall>a\<in>set args. startsWith a ''--'' \<longrightarrow> lookupRule spec (flagKey a) \<noteq> Some StringFlag)"

text \<open>
  A turn of the idle loop is quiescent when its snapshot shows no pending job, no job in
  progress and no processing. Quiescence is sustained for \<open>w\<close> at turn \<open>k\<close> when the turns
  of the unbroken quiescent run that ends at \<open>k\<close>, which starts at turn \<open>j\<close> (the first
  turn, or the one after a turn that saw activity), are all quiescent and the clock at
  turn \<open>k\<close> is at least \<open>w\<close> past the clock at turn \<open>j\<close>.
\<close>

definition quiescent :: "poll \<Rightarrow> bool" where
  "quiescent p = (\<not> processing (stats p) \<and> pending (stats p) = 0 \<and> in_progress (stats p) = 0)"

definition sustainedAt :: "int \<Rightarrow> poll list \<Rightarrow> nat \<Rightarrow> bool" where
  "sustainedAt w polls k =
     (\<exists>j\<in>{..k}. (\<forall>i\<in>{j..k}. quiescent (polls ! i))
        \<and> (j = 0 \<or> \<not> quiescent (polls ! (j - 1)))
        \<and> w \<le> nowAtCheck (polls ! k) - nowAtStart (polls ! j))"

text \<open>
  The same for the loop entered in the middle of a run, with \<^verbatim>\<open>idleStart\<close> already set:
  \<open>windowStart\<close> is the value \<^verbatim>\<open>idleStart\<close> has after the first turn.
\<close>

definition windowStart :: "int option \<Rightarrow> poll \<Rightarrow> int" where
  "windowStart s p = (if unset s then nowAtStart p else the s)"

definition streak :: "poll list \<Rightarrow> nat \<Rightarrow> nat \<Rightarrow> bool" where
  "streak polls j k = (\<forall>i. j \<le> i \<and> i \<le> k \<longrightarrow> quiescent (polls ! i))"

definition sustainedFrom :: "int \<Rightarrow> int option \<Rightarrow> poll list \<Rightarrow> nat \<Rightarrow> bool" where
  "sustainedFrom w s polls k =
     ((streak polls 0 k \<and> w \<le> nowAtCheck (polls ! k) - windowStart s (polls ! 0))
      \<or> (\<exists>j. 0 < j \<and> j \<le> k \<and> streak polls j k \<and> \<not> quiescent (polls ! (j - 1))
            \<and> w \<le> nowAtCheck (polls ! k) - nowAtStart (polls ! j)))"

text \<open>
  Ideal timing: the turns are exactly 500 ms apart from \<open>t0\<close> on, and both clock readings
  of a turn are the time of the turn.
\<close>

definition everyHalfSecond :: "int \<Rightarrow> poll list \<Rightarrow> bool" where
  "everyHalfSecond t0 polls =
     (\<forall>i\<in>{..<length polls}. nowAtStart (polls ! i) = t0 + 500 * int i
        \<and> nowAtCheck (polls ! i) = t0 + 500 * int i)"

definition samplePolls :: "poll list" where
  "samplePolls =
     map (\<lambda>i. \<lparr>stats = \<lparr>pending = 0, in_progress = (if i = 0 then 1 else 0), idle_jobs = 1,
                         error_jobs = 0, processing = (i = 0)\<rparr>,
               nowAtStart = 1000 + 500 * int i, nowAtCheck = 1000 + 500 * int i\<rparr>) [0..<7]"

section \<open>The store lock\<close>

lemma path_join_neq [simp]: "path_join d n \<noteq> d" "d \<noteq> path_join d n"
  by (auto simp: path_join_def)

lemma butlast_path_join [simp]: "butlast (path_join d n) = d"
  by (simp add: path_join_def)

text \<open>The ancestors of the \<^verbatim>\<open>LOCK\<close> path are the store directory and its ancestors.\<close>

lemma ancestors_path_join: "ancestors (path_join d n) = ancestors d @ [d]"
  by (simp add: ancestors_def path_join_def)

lemma underFile_path_join:
  "underFile fs (path_join d n) \<longleftrightarrow> underFile fs d \<or> isRegularFile fs d"
  by (auto simp: underFile_def ancestors_path_join)

lemma path_join_not_above: "path_join d n \<notin> set (d # ancestors d)"
  by (auto simp: ancestors_def path_join_def dest: arg_cong [where f = length])

lemma createDirectories_below [simp]:
  "createDirectories fs d (path_join d n) = fs (path_join d n)"
  using path_join_not_above [of d n] by (simp add: createDirectories_def)

lemma createDirectories_self [simp]: "fs d = None \<Longrightarrow> createDirectories fs d d = Some Dir"
  by (simp add: createDirectories_def)

text \<open>What \<^verbatim>\<open>mkdirSync\<close> does, by what is at the path.\<close>

lemma mkdir_dir: "fs d = Some Dir \<Longrightarrow> mkdirSync_recursive fs d = (Inr (), fs)"
  by (simp add: mkdirSync_recursive_def)

lemma mkdir_file:
  "isRegularFile fs d \<Longrightarrow>
   mkdirSync_recursive fs d = (Inl (system_error EEXIST ''mkdir'' (Some d)), fs)"
  by (auto simp: mkdirSync_recursive_def isRegularFile_def split: option.splits node.splits)

lemma mkdir_blocked:
  "fs d = None \<Longrightarrow> underFile fs d \<Longrightarrow>
   mkdirSync_recursive fs d = (Inl (system_error ENOTDIR ''mkdir'' (Some d)), fs)"
  by (simp add: mkdirSync_recursive_def)

lemma mkdir_fresh:
  "fs d = None \<Longrightarrow> \<not> underFile fs d \<Longrightarrow>
   mkdirSync_recursive fs d = (Inr (), createDirectories fs d)"
  by (simp add: mkdirSync_recursive_def)

lemma mkdir_result:
  assumes "mkdirSync_recursive fs d = (Inr u, fs1)"
  shows "fs1 d = Some Dir \<and> fs1 (path_join d n) = fs (path_join d n)
    \<and> \<not> isRegularFile fs d \<and> (fs d = Some Dir \<longrightarrow> fs1 = fs)"
  using assms
  by (auto simp: mkdirSync_recursive_def isRegularFile_def
      split: option.splits node.splits if_splits)

lemma mkdir_reachable:
  assumes "\<not> underFile fs (path_join d n)"
  shows "\<exists>fs1. mkdirSync_recursive fs d = (Inr (), fs1)"
proof -
  from assms have a: "\<not> underFile fs d" and b: "\<not> isRegularFile fs d"
    by (simp_all add: underFile_path_join)
  show ?thesis
  proof (cases "fs d")
    case None
    with a show ?thesis by (simp add: mkdir_fresh)
  next
    case (Some x)
    with b show ?thesis by (cases x) (simp_all add: isRegularFile_def mkdir_dir)
  qed
qed

lemma mkdir_fails:
  assumes "mkdirSync_recursive fs d = (Inl e, fs1)"
  shows "acquireStoreLock env fs d = (Inl e, fs) \<and> fs1 = fs \<and> (\<exists>c s p. e = system_error c s p)"
  using assms
  by (auto simp: acquireStoreLock_def mkdirSync_recursive_def Let_def
      split: option.splits node.splits if_splits)

text \<open>The cases of an acquisition once the directory is there, by what is at the \<^verbatim>\<open>LOCK\<close> path.\<close>

lemma acquire_vacant:
  assumes "mkdirSync_recursive fs d = (Inr u, fs1)" "fs (path_join d ''LOCK'') = None"
  shows "acquireStoreLock env fs d =
    (Inr \<lparr>closure_lockPath = path_join d ''LOCK'', closure_released = False\<rparr>,
     fs1(path_join d ''LOCK'' \<mapsto> File (lockPayload env)))"
  using mkdir_result [OF assms(1), of "''LOCK''"] assms
  by (simp add: acquireStoreLock_def createMarker_def openSync_wx_def
      writeFileSync_fd_def closeSync_def Let_def)

lemma acquire_held:
  assumes "mkdirSync_recursive fs d = (Inr u, fs1)" "fs (path_join d ''LOCK'') = Some (File c)"
  shows "acquireStoreLock env fs d =
    (Inl (new_Error (''Store is locked by another process'' @ lockDetails c)), fs1)"
  using mkdir_result [OF assms(1), of "''LOCK''"] assms
  by (simp add: acquireStoreLock_def createMarker_def openSync_wx_def
      readStoreLock_def readFileSync_def system_error_def lockDetails_def Let_def)

lemma acquire_lock_is_dir:
  assumes "mkdirSync_recursive fs d = (Inr u, fs1)" "fs (path_join d ''LOCK'') = Some Dir"
  shows "acquireStoreLock env fs d = (Inl (system_error EISDIR ''read'' None), fs1)"
  using mkdir_result [OF assms(1), of "''LOCK''"] assms
  by (simp add: acquireStoreLock_def createMarker_def openSync_wx_def
      readStoreLock_def readFileSync_def system_error_def Let_def)

lemma not_isLockHeldError_system: "\<not> isLockHeldError (system_error e s p)"
  by (simp add: isLockHeldError_def system_error_def)

lemma isLockHeldError_locked:
  "isLockHeldError (new_Error (''Store is locked by another process'' @ x))"
  by (simp add: isLockHeldError_def new_Error_def)

lemma acquire_held_dir:
  assumes "fs (path_join d ''LOCK'') = Some (File c)" "fs d = Some Dir"
  shows "acquireStoreLock env fs d =
    (Inl (new_Error (''Store is locked by another process'' @ lockDetails c)), fs)"
  using acquire_held [OF mkdir_dir [of fs d, OF assms(2)] assms(1)] .

lemma acquire_vacant_dir:
  assumes "fs (path_join d ''LOCK'') = None" "fs d = Some Dir"
  shows "acquireStoreLock env fs d =
    (Inr \<lparr>closure_lockPath = path_join d ''LOCK'', closure_released = False\<rparr>,
     fs(path_join d ''LOCK'' \<mapsto> File (lockPayload env)))"
  using acquire_vacant [OF mkdir_dir [of fs d, OF assms(2)] assms(1)] .

lemma acquire_held_error:
  assumes "fs (path_join d ''LOCK'') = Some (File c)" "fs d = Some Dir"
  shows "\<exists>e. fst (acquireStoreLock env fs d) = Inl e \<and> isLockHeldError e"
  unfolding acquire_held_dir [OF assms] using isLockHeldError_locked by (metis fst_conv)

lemma acquire_success_state:
  assumes "acquireStoreLock env fs d = (Inr r, fs')"
  shows "fs (path_join d ''LOCK'') = None
    \<and> r = \<lparr>closure_lockPath = path_join d ''LOCK'', closure_released = False\<rparr>
    \<and> fs' d = Some Dir
    \<and> fs' (path_join d ''LOCK'') = Some (File (lockPayload env))"
proof (cases "mkdirSync_recursive fs d")
  case (Pair res fs1)
  show ?thesis
  proof (cases res)
    case (Inl e)
    with Pair mkdir_fails [of fs d e fs1 env] assms show ?thesis by simp
  next
    case (Inr u)
    with Pair have m: "mkdirSync_recursive fs d = (Inr u, fs1)" by simp
    show ?thesis
    proof (cases "fs (path_join d ''LOCK'')")
      case None
      from acquire_vacant [OF m None, of env] assms mkdir_result [OF m, of "''LOCK''"] None
      show ?thesis by auto
    next
      case (Some x)
      with assms acquire_held [OF m, of _ env] acquire_lock_is_dir [OF m, of env]
      show ?thesis by (cases x) simp_all
    qed
  qed
qed

text \<open>Below a regular file nothing is created: \<^verbatim>\<open>mkdirSync\<close> fails and the error is passed on.\<close>

lemma acquire_unreachable:
  assumes "underFile fs (path_join d ''LOCK'')" "fs d \<noteq> Some Dir"
  shows "\<exists>e. acquireStoreLock env fs d = (Inl e, fs) \<and> \<not> isLockHeldError e
    \<and> code e = Some (if isRegularFile fs d then EEXIST else ENOTDIR)"
proof (cases "isRegularFile fs d")
  case True
  from mkdir_fails [OF mkdir_file [OF True], of env] True show ?thesis
    by (simp add: not_isLockHeldError_system) (simp add: system_error_def)
next
  case False
  with assms have n: "fs d = None" and u: "underFile fs d"
    by (auto simp: underFile_path_join isRegularFile_def split: option.splits node.splits)
  from mkdir_fails [OF mkdir_blocked [OF n u], of env] False show ?thesis
    by (simp add: not_isLockHeldError_system) (simp add: system_error_def)
qed

text \<open>
  C1. In a file system where an entry at the \<^verbatim>\<open>LOCK\<close> path implies that the store
  directory is a directory, \<^verbatim>\<open>acquireStoreLock\<close> fails with the lock-held error exactly
  when a marker exists. When nothing is at the \<^verbatim>\<open>LOCK\<close> path and no regular file is in
  the way (neither the store directory path nor any of its ancestors is taken by a regular
  file) it succeeds and leaves a marker holding its payload. After any successful
  acquisition a second attempt on the same directory, by whatever process, fails with the
  lock-held error: of two attempts, the second made while the first is held, exactly one
  succeeds.
\<close>

theorem acquireStoreLock_exclusive:
  assumes "fs (path_join dir ''LOCK'') \<noteq> None \<longrightarrow> fs dir = Some Dir"
  shows "((\<exists>e. fst (acquireStoreLock env fs dir) = Inl e \<and> isLockHeldError e)
            \<longleftrightarrow> markerExists fs dir)
   \<and> (fs (path_join dir ''LOCK'') = None \<and> \<not> underFile fs (path_join dir ''LOCK'') \<longrightarrow>
        (\<exists>r fs'. acquireStoreLock env fs dir = (Inr r, fs') \<and>
            fs' (path_join dir ''LOCK'') = Some (File (lockPayload env))))
   \<and> (\<forall>r fs'. acquireStoreLock env fs dir = (Inr r, fs') \<longrightarrow>
         (\<forall>env'. \<exists>e. fst (acquireStoreLock env' fs' dir) = Inl e \<and> isLockHeldError e))"
proof (intro conjI allI impI)
  show "(\<exists>e. fst (acquireStoreLock env fs dir) = Inl e \<and> isLockHeldError e)
          \<longleftrightarrow> markerExists fs dir"
  proof (cases "fs (path_join dir ''LOCK'')")
    case None
    then have nm: "\<not> markerExists fs dir" by (simp add: markerExists_def isRegularFile_def)
    have "\<not> isLockHeldError e" if "fst (acquireStoreLock env fs dir) = Inl e" for e
    proof (cases "mkdirSync_recursive fs dir")
      case (Pair res fs1)
      show ?thesis
      proof (cases res)
        case (Inl e')
        with Pair mkdir_fails [of fs dir e' fs1 env] that show ?thesis
          by (auto simp: not_isLockHeldError_system)
      next
        case (Inr u)
        with Pair acquire_vacant [of fs dir u fs1 env] None that show ?thesis by simp
      qed
    qed
    with nm show ?thesis by blast
  next
    case (Some n)
    with assms have d: "fs dir = Some Dir" by simp
    show ?thesis
    proof (cases n)
      case (File c)
      with Some d acquire_held_error [of fs dir c env] show ?thesis
        by (simp add: markerExists_def isRegularFile_def)
    next
      case Dir
      with Some acquire_lock_is_dir [OF mkdir_dir [of fs dir, OF d], of env] show ?thesis
        by (simp add: markerExists_def isRegularFile_def not_isLockHeldError_system)
    qed
  qed
next
  assume a: "fs (path_join dir ''LOCK'') = None \<and> \<not> underFile fs (path_join dir ''LOCK'')"
  then obtain fs1 where m: "mkdirSync_recursive fs dir = (Inr (), fs1)"
    using mkdir_reachable [of fs dir "''LOCK''"] by blast
  from acquire_vacant [OF m, of env] a
  show "\<exists>r fs'. acquireStoreLock env fs dir = (Inr r, fs') \<and>
            fs' (path_join dir ''LOCK'') = Some (File (lockPayload env))"
    by simp
next
  fix r fs' env'
  assume "acquireStoreLock env fs dir = (Inr r, fs')"
  from acquire_success_state [OF this]
  have "fs' (path_join dir ''LOCK'') = Some (File (lockPayload env))"
    and "fs' dir = Some Dir"
    by simp_all
  then show "\<exists>e. fst (acquireStoreLock env' fs' dir) = Inl e \<and> isLockHeldError e"
    by (rule acquire_held_error)
qed

lemma underFile_empty [simp]: "\<not> underFile Map.empty p"
  by (simp add: underFile_def isRegularFile_def)

theorem acquireStoreLock_exclusive_witness:
  "\<not> markerExists Map.empty sampleDir
   \<and> (\<exists>r fs'. acquireStoreLock sampleEnv Map.empty sampleDir = (Inr r, fs')
         \<and> fs' (path_join sampleDir ''LOCK'') = Some (File (lockPayload sampleEnv))
         \<and> (\<exists>e. fst (acquireStoreLock otherEnv fs' sampleDir) = Inl e \<and> isLockHeldError e))"
proof -
  have h: "Map.empty (path_join sampleDir ''LOCK'') \<noteq> None \<longrightarrow> Map.empty sampleDir = Some Dir"
    by simp
  have v: "Map.empty (path_join sampleDir ''LOCK'') = None
      \<and> \<not> underFile Map.empty (path_join sampleDir ''LOCK'')"
    by simp
  from acquireStoreLock_exclusive [OF h, of sampleEnv] v show ?thesis
    by (simp add: markerExists_def isRegularFile_def) blast
qed

lemma release_sets_flag: "closure_released (fst (snd (release r fs)))"
  by (simp add: release_def Let_def split: prod.splits sum.splits)

lemma release_released: "closure_released r \<Longrightarrow> release r fs = (Inr (), r, fs)"
  by (simp add: release_def)

lemma release_times_released:
  "closure_released r \<Longrightarrow> release_times n r fs = (replicate n (Inr ()), r, fs)"
  by (induction n) (simp_all add: release_released)

lemma release_absent:
  "fs (closure_lockPath r) = None \<Longrightarrow> \<not> underFile fs (closure_lockPath r) \<Longrightarrow>
   fst (release r fs) = Inr () \<and> snd (snd (release r fs)) = fs"
  by (simp add: release_def unlinkSync_def system_error_def Let_def)

lemma release_file:
  "fs (closure_lockPath r) = Some (File c) \<Longrightarrow> \<not> closure_released r \<Longrightarrow>
   release r fs = (Inr (), r\<lparr>closure_released := True\<rparr>, fs(closure_lockPath r := None))"
  by (simp add: release_def unlinkSync_def Let_def)

text \<open>
  Only ENOENT is swallowed: where the \<^verbatim>\<open>LOCK\<close> path has come to lie below a regular
  file, the first call of the closure passes on the ENOTDIR of \<^verbatim>\<open>unlinkSync\<close>.
\<close>

lemma release_unreachable:
  "fs (closure_lockPath r) = None \<Longrightarrow> underFile fs (closure_lockPath r) \<Longrightarrow>
   \<not> closure_released r \<Longrightarrow>
   release r fs =
     (Inl (system_error ENOTDIR ''unlink'' (Some (closure_lockPath r))),
      r\<lparr>closure_released := True\<rparr>, fs)"
  by (simp add: release_def unlinkSync_def system_error_def Let_def)

text \<open>
  C2. Whatever the first call of the release closure did, every later call returns
  normally and changes neither the closure nor the file system, in whatever state the
  file system then is, and so do \<open>n\<close> calls in a row. A call that finds no marker at the
  \<^verbatim>\<open>LOCK\<close> path, the store directory still being reachable (no regular file has taken
  the place of the directory or of one of its ancestors), returns normally and leaves
  the file system as it was.
\<close>

theorem release_idempotent:
  "(case release r fs of (res, r', fs') \<Rightarrow>
      release r' fs2 = (Inr (), r', fs2)
      \<and> release_times n r' fs' = (replicate n (Inr ()), r', fs'))
   \<and> (fs (closure_lockPath r) = None \<and> \<not> underFile fs (closure_lockPath r) \<longrightarrow>
        fst (release r fs) = Inr () \<and> snd (snd (release r fs)) = fs)"
proof -
  obtain res r' fs' where eq: "release r fs = (res, r', fs')"
    by (cases "release r fs") auto
  with release_sets_flag [of r fs] have "closure_released r'" by simp
  then have "release r' fs2 = (Inr (), r', fs2)"
    and "release_times n r' fs' = (replicate n (Inr ()), r', fs')"
    by (simp_all add: release_released release_times_released)
  with eq release_absent [of fs r] show ?thesis by simp
qed

theorem release_idempotent_witness:
  "release sampleClosure lockedStore =
     (Inr (), sampleClosure\<lparr>closure_released := True\<rparr>, [sampleDir \<mapsto> Dir])
   \<and> release (sampleClosure\<lparr>closure_released := True\<rparr>) lockedStore =
       (Inr (), sampleClosure\<lparr>closure_released := True\<rparr>, lockedStore)
   \<and> release_times 3 (sampleClosure\<lparr>closure_released := True\<rparr>) [sampleDir \<mapsto> Dir] =
       ([Inr (), Inr (), Inr ()], sampleClosure\<lparr>closure_released := True\<rparr>, [sampleDir \<mapsto> Dir])
   \<and> fst (release sampleClosure [sampleDir \<mapsto> Dir]) = Inr ()
   \<and> snd (snd (release sampleClosure [sampleDir \<mapsto> Dir])) = [sampleDir \<mapsto> Dir]"
proof -
  have a: "release sampleClosure lockedStore =
     (Inr (), sampleClosure\<lparr>closure_released := True\<rparr>, [sampleDir \<mapsto> Dir])"
    by (simp add: release_file [of _ _ "lockPayload sampleEnv"] sampleClosure_def lockedStore_def
        fun_upd_twist)
  have b: "[sampleDir \<mapsto> Dir] (closure_lockPath sampleClosure) = None
      \<and> \<not> underFile [sampleDir \<mapsto> Dir] (closure_lockPath sampleClosure)"
    by (simp add: sampleClosure_def underFile_def isRegularFile_def)
  from release_idempotent [where r = sampleClosure and fs = lockedStore and ?fs2.0 = lockedStore and n = 3]
    release_idempotent [where r = sampleClosure and fs = "[sampleDir \<mapsto> Dir]"] a b
  show ?thesis
    by (simp add: numeral_3_eq_3)
qed

text \<open>
  C3. From a store directory without a marker (nothing at its \<^verbatim>\<open>LOCK\<close> path, no regular
  file at its own path or at an ancestor's), the acquisition succeeds and leaves a marker;
  calling its release closure then returns normally and leaves no marker, and a further
  acquisition succeeds and leaves a marker again.
\<close>

theorem acquire_release_roundtrip:
  assumes "fs (path_join dir ''LOCK'') = None"
    and "\<not> underFile fs (path_join dir ''LOCK'')"
  shows "\<exists>r fs1. acquireStoreLock env fs dir = (Inr r, fs1) \<and> markerExists fs1 dir \<and>
     (\<exists>r' fs2. release r fs1 = (Inr (), r', fs2) \<and> fs2 (path_join dir ''LOCK'') = None
        \<and> \<not> markerExists fs2 dir
        \<and> (\<exists>r2 fs3. acquireStoreLock env' fs2 dir = (Inr r2, fs3) \<and> markerExists fs3 dir))"
proof -
  let ?lp = "path_join dir ''LOCK''"
  let ?r = "\<lparr>closure_lockPath = ?lp, closure_released = False\<rparr>"
  from assms(2) obtain fs0 where m: "mkdirSync_recursive fs dir = (Inr (), fs0)"
    using mkdir_reachable [of fs dir "''LOCK''"] by blast
  let ?fs1 = "fs0(?lp \<mapsto> File (lockPayload env))"
  let ?fs2 = "?fs1(?lp := None)"
  have a: "acquireStoreLock env fs dir = (Inr ?r, ?fs1)"
    using m assms(1) by (rule acquire_vacant)
  have a': "markerExists ?fs1 dir" by (simp add: markerExists_def isRegularFile_def)
  have "release ?r ?fs1 = (Inr (), ?r\<lparr>closure_released := True\<rparr>, ?fs1(closure_lockPath ?r := None))"
    by (rule release_file) simp_all
  then have b: "release ?r ?fs1 = (Inr (), ?r\<lparr>closure_released := True\<rparr>, ?fs2)" by simp
  have c: "?fs2 ?lp = None" by simp
  have d: "?fs2 dir = Some Dir" using mkdir_result [OF m, of "''LOCK''"] by simp
  have e: "\<not> markerExists ?fs2 dir" by (simp add: markerExists_def isRegularFile_def)
  have f: "acquireStoreLock env' ?fs2 dir = (Inr ?r, ?fs2(?lp \<mapsto> File (lockPayload env')))"
    using c d by (rule acquire_vacant_dir)
  have g: "markerExists (?fs2(?lp \<mapsto> File (lockPayload env'))) dir"
    by (simp add: markerExists_def isRegularFile_def)
  from a a' b c e f g show ?thesis by blast
qed

theorem acquire_release_roundtrip_witness:
  "\<exists>r fs1. acquireStoreLock sampleEnv Map.empty sampleDir = (Inr r, fs1)
     \<and> markerExists fs1 sampleDir \<and>
     (\<exists>r' fs2. release r fs1 = (Inr (), r', fs2) \<and> fs2 (path_join sampleDir ''LOCK'') = None
        \<and> \<not> markerExists fs2 sampleDir
        \<and> (\<exists>r2 fs3. acquireStoreLock otherEnv fs2 sampleDir = (Inr r2, fs3)
              \<and> markerExists fs3 sampleDir))"
  using acquire_release_roundtrip [of Map.empty sampleDir sampleEnv otherEnv]
  by simp

lemma trim_no_ws:
  assumes "\<not> isWhiteSpace a" "\<not> isWhiteSpace b"
  shows "trim (a # xs @ [b]) = a # xs @ [b]"
  using assms by (simp add: trim_def)

lemma lockPayload_trim: "trim (lockPayload env) = lockPayload env"
proof -
  have "\<exists>xs. lockPayload env = CHR ''{'' # xs @ [CHR ''}'']"
    by (simp add: lockPayload_def)
  then obtain xs where "lockPayload env = CHR ''{'' # xs @ [CHR ''}'']" ..
  then show ?thesis by (simp add: trim_no_ws isWhiteSpace_def)
qed

text \<open>The decimal numeral of a number is made of digits and reads back as the number.\<close>

lemma digit_char:
  assumes "d < 10"
  shows "isDigit (''0123456789'' ! d) \<and> (of_char (''0123456789'' ! d) :: nat) - 48 = d"
proof -
  from assms have "d = 0 \<or> d = 1 \<or> d = 2 \<or> d = 3 \<or> d = 4 \<or> d = 5 \<or> d = 6
      \<or> d = 7 \<or> d = 8 \<or> d = 9"
    by arith
  then show ?thesis by (elim disjE) (simp_all add: isDigit_def)
qed

lemma decimal_value_snoc:
  "decimal_value (ds @ [c]) = 10 * decimal_value ds + (of_char c - 48)"
  by (simp add: decimal_value_def)

lemma string_of_nat_digits: "list_all isDigit (string_of_nat n)"
proof (induction n rule: string_of_nat.induct)
  case (1 n)
  show ?case
  proof (cases "n < 10")
    case True
    then show ?thesis by (simp add: string_of_nat.simps [of n] digit_char)
  next
    case False
    with 1 show ?thesis by (simp add: string_of_nat.simps [of n] digit_char)
  qed
qed

lemma decimal_value_string_of_nat: "decimal_value (string_of_nat n) = n"
proof (induction n rule: string_of_nat.induct)
  case (1 n)
  show ?case
  proof (cases "n < 10")
    case True
    then show ?thesis
      using decimal_value_snoc [of "[]" "''0123456789'' ! n"]
      by (simp add: string_of_nat.simps [of n] digit_char decimal_value_def)
  next
    case False
    with 1 have "decimal_value (string_of_nat (n div 10)) = n div 10" by simp
    with False show ?thesis
      by (simp add: string_of_nat.simps [of n] decimal_value_snoc digit_char)
  qed
qed

lemma plainText_escape: "plainText s \<Longrightarrow> concat (map json_escape s) = s"
  by (induction s) (simp_all add: plainText_def)

lemma lockPayload_shape:
  \<open>lockPayload env =
     ''{"pid":'' @ string_of_nat (pid env) @ '',"startedAt":"'' @
     concat (map json_escape (nowISO env)) @ ''"}''\<close>
  by (simp add: lockPayload_def json_string_def json_escape_def)

lemma recordedPid_lockPayload: "recordedPid (lockPayload env) = pid env"
proof -
  have "takeWhile isDigit (string_of_nat (pid env) @ CHR '','' # xs) = string_of_nat (pid env)" for xs
    using string_of_nat_digits [of "pid env"]
    by (simp add: takeWhile_append2 list_all_iff isDigit_def)
  then show ?thesis
    by (simp add: recordedPid_def lockPayload_shape decimal_value_string_of_nat)
qed

lemma recordedStartedAt_lockPayload:
  assumes "plainText (nowISO env)"
  shows "recordedStartedAt (lockPayload env) = nowISO env"
proof -
  have "dropWhile isDigit (string_of_nat (pid env) @ CHR '','' # xs) = CHR '','' # xs" for xs
    using string_of_nat_digits [of "pid env"]
    by (simp add: dropWhile_append2 list_all_iff isDigit_def)
  then show ?thesis
    using plainText_escape [OF assms]
    by (simp add: recordedStartedAt_def lockPayload_shape butlast_append)
qed

text \<open>
  C7. After a successful acquisition the marker holds the payload of the acquiring
  process, \<^verbatim>\<open>readStoreLock\<close> reports it with \<^verbatim>\<open>exists\<close> true, and the payload is the JSON
  object whose \<^verbatim>\<open>pid\<close> is the decimal process id and whose \<^verbatim>\<open>startedAt\<close> is the time
  stamp read at the acquisition. Reading the marker back gives the owner: the digits
  after \<^verbatim>\<open>"pid":\<close> are the decimal numeral of the acquiring process's id, and the text of
  \<^verbatim>\<open>startedAt\<close> is its time stamp (for a time stamp in which JSON escapes no character).
\<close>

theorem marker_records_owner:
  assumes "acquireStoreLock env fs dir = (Inr r, fs')"
  shows "fs' (path_join dir ''LOCK'') = Some (File (lockPayload env))
    \<and> readStoreLock fs' dir =
        (Inr \<lparr>exists = True, path = path_join dir ''LOCK'', info = Some (lockPayload env)\<rparr>, fs')
    \<and> lockPayload env =
        [CHR ''{'', CHR 0x22] @ ''pid'' @ [CHR 0x22] @ '':'' @ string_of_nat (pid env) @ '','' @
        [CHR 0x22] @ ''startedAt'' @ [CHR 0x22] @ '':'' @ json_string (nowISO env) @ [CHR ''}'']
    \<and> recordedPid (lockPayload env) = pid env
    \<and> decimal_value (string_of_nat (pid env)) = pid env
    \<and> (plainText (nowISO env) \<longrightarrow> recordedStartedAt (lockPayload env) = nowISO env)"
proof -
  from acquire_success_state [OF assms]
  have f: "fs' (path_join dir ''LOCK'') = Some (File (lockPayload env))" by simp
  then have "readStoreLock fs' dir =
        (Inr \<lparr>exists = True, path = path_join dir ''LOCK'', info = Some (lockPayload env)\<rparr>, fs')"
    by (simp add: readStoreLock_def readFileSync_def lockPayload_trim)
  moreover have "lockPayload env =
        [CHR ''{'', CHR 0x22] @ ''pid'' @ [CHR 0x22] @ '':'' @ string_of_nat (pid env) @ '','' @
        [CHR 0x22] @ ''startedAt'' @ [CHR 0x22] @ '':'' @ json_string (nowISO env) @ [CHR ''}'']"
    by (simp add: lockPayload_def json_string_def json_escape_def)
  ultimately show ?thesis
    using f recordedPid_lockPayload [of env] decimal_value_string_of_nat [of "pid env"]
      recordedStartedAt_lockPayload [of env]
    by (simp only: simp_thms) blast
qed

lemma lockPayload_sampleEnv:
  \<open>lockPayload sampleEnv = ''{"pid":4242,"startedAt":"2024-01-01T00:00:00.000Z"}''\<close>
  by (simp add: lockPayload_def json_string_def json_escape_def sampleEnv_def string_of_nat.simps)

lemma acquire_sample:
  "fst (acquireStoreLock sampleEnv Map.empty sampleDir) = Inr sampleClosure"
proof -
  obtain fs1 where "mkdirSync_recursive Map.empty sampleDir = (Inr (), fs1)"
    using mkdir_reachable [of Map.empty sampleDir "''LOCK''"] by auto
  from acquire_vacant [OF this, of sampleEnv] show ?thesis by (simp add: sampleClosure_def)
qed

theorem marker_records_owner_witness:
  \<open>fst (readStoreLock (snd (acquireStoreLock sampleEnv Map.empty sampleDir)) sampleDir) =
     Inr \<lparr>exists = True, path = [''home'', ''u'', ''.frogiverse'', ''LOCK''],
          info = Some ''{"pid":4242,"startedAt":"2024-01-01T00:00:00.000Z"}''\<rparr>
   \<and> recordedPid ''{"pid":4242,"startedAt":"2024-01-01T00:00:00.000Z"}'' = 4242
   \<and> recordedStartedAt ''{"pid":4242,"startedAt":"2024-01-01T00:00:00.000Z"}'' =
       ''2024-01-01T00:00:00.000Z''\<close>
proof -
  have a: "acquireStoreLock sampleEnv Map.empty sampleDir =
    (Inr sampleClosure, snd (acquireStoreLock sampleEnv Map.empty sampleDir))"
    using acquire_sample by (metis prod.collapse)
  have p: "plainText (nowISO sampleEnv)"
    by (simp add: plainText_def sampleEnv_def json_escape_def)
  have e: "pid sampleEnv = 4242" "nowISO sampleEnv = ''2024-01-01T00:00:00.000Z''"
    by (simp_all add: sampleEnv_def)
  from marker_records_owner [OF a] p show ?thesis
    unfolding lockPayload_sampleEnv e
    by (simp add: path_join_def sampleDir_def)
qed

text \<open>
  C8. When a marker exists in the store directory, the acquisition fails with the
  lock-held error whatever the marker contains and whichever process asks, and it leaves
  the file system as it was, so every retry meets the same marker. Nothing the function
  reads tells whether the recorded owner is alive. Once the marker is removed from
  outside, the acquisition succeeds.
\<close>

theorem no_staleness_detection:
  assumes "fs (path_join dir ''LOCK'') = Some (File c)" and "fs dir = Some Dir"
  shows "acquireStoreLock env fs dir =
      (Inl (new_Error (''Store is locked by another process'' @ lockDetails c)), fs)
    \<and> isLockHeldError (new_Error (''Store is locked by another process'' @ lockDetails c))
    \<and> (\<exists>r fs'. acquireStoreLock env (fs(path_join dir ''LOCK'' := None)) dir = (Inr r, fs'))"
proof -
  have "acquireStoreLock env fs dir =
      (Inl (new_Error (''Store is locked by another process'' @ lockDetails c)), fs)"
    using assms by (rule acquire_held_dir)
  moreover have "\<exists>r fs'. acquireStoreLock env (fs(path_join dir ''LOCK'' := None)) dir = (Inr r, fs')"
    using assms(2) by (simp add: acquire_vacant_dir)
  ultimately show ?thesis using isLockHeldError_locked by simp
qed

theorem no_staleness_detection_witness:
  "acquireStoreLock otherEnv staleStore sampleDir =
     (Inl (new_Error ''Store is locked by another process (left by a process that is gone)''),
      staleStore)"
proof -
  have a: "staleStore (path_join sampleDir ''LOCK'') = Some (File ''left by a process that is gone'')"
    and b: "staleStore sampleDir = Some Dir"
    by (simp_all add: staleStore_def)
  have c: "lockDetails ''left by a process that is gone'' = '' (left by a process that is gone)''"
    by (simp add: lockDetails_def trim_def isWhiteSpace_def)
  from no_staleness_detection [OF a b, of otherEnv] show ?thesis
    by (simp add: c)
qed

section \<open>Inspection and the doctor command\<close>

lemma readStoreLock_frame: "snd (readStoreLock fs dir) = fs"
  by (simp add: readStoreLock_def readFileSync_def Let_def split: option.splits node.splits)

lemma readStoreLock_file:
  "fs (path_join dir ''LOCK'') = Some (File c) \<Longrightarrow>
   readStoreLock fs dir = (Inr \<lparr>exists = True, path = path_join dir ''LOCK'', info = Some (trim c)\<rparr>, fs)"
  by (simp add: readStoreLock_def readFileSync_def)

lemma readStoreLock_absent:
  "fs (path_join dir ''LOCK'') = None \<Longrightarrow> \<not> underFile fs (path_join dir ''LOCK'') \<Longrightarrow>
   readStoreLock fs dir = (Inr \<lparr>exists = False, path = path_join dir ''LOCK'', info = None\<rparr>, fs)"
  by (simp add: readStoreLock_def readFileSync_def system_error_def)

lemma readStoreLock_unreachable:
  "fs (path_join dir ''LOCK'') = None \<Longrightarrow> underFile fs (path_join dir ''LOCK'') \<Longrightarrow>
   readStoreLock fs dir = (Inl (system_error ENOTDIR ''open'' (Some (path_join dir ''LOCK''))), fs)"
  by (simp add: readStoreLock_def readFileSync_def system_error_def)

lemma readStoreLock_dir:
  "fs (path_join dir ''LOCK'') = Some Dir \<Longrightarrow>
   readStoreLock fs dir = (Inl (system_error EISDIR ''read'' None), fs)"
  by (simp add: readStoreLock_def readFileSync_def system_error_def)

lemma readStoreLock_report:
  assumes "readStoreLock fs dir = (Inr st, fs')"
  shows "exists st = markerExists fs dir \<and> info st = lockReport fs dir \<and> fs' = fs"
proof (cases "fs (path_join dir ''LOCK'')")
  case None
  with assms show ?thesis
    by (cases "underFile fs (path_join dir ''LOCK'')")
      (auto simp: readStoreLock_absent readStoreLock_unreachable markerExists_def
        isRegularFile_def lockReport_def)
next
  case (Some n)
  with assms show ?thesis
    by (cases n)
      (auto simp: readStoreLock_file readStoreLock_dir markerExists_def isRegularFile_def
        lockReport_def)
qed

lemma runDoctor_frame: "snd (runDoctor cfg gf args fs) = fs"
proof -
  have "snd (case readStoreLock fs d of (Inl e, fs') \<Rightarrow> (Inl e, fs')
        | (Inr lock, fs') \<Rightarrow> (Inr (f lock), fs')) = fs" for d and f :: "lock_status \<Rightarrow> session"
    using readStoreLock_frame [of fs d]
    by (cases "readStoreLock fs d") (auto split: sum.splits)
  then show ?thesis
    by (simp add: runDoctor_def Let_def split: sum.splits prod.splits)
qed

text \<open>
  C6. \<^verbatim>\<open>readStoreLock\<close> and the part of \<^verbatim>\<open>runDoctor\<close> that these sources contain leave
  the file system exactly as they found it, so an acquisition attempted afterwards behaves
  as it would have before. What they report is whether a marker exists and, if so, its
  trimmed contents (the owner's pid and time stamp as written by the owner).
\<close>

theorem inspect_leaves_lock:
  "snd (readStoreLock fs dir) = fs
   \<and> snd (runDoctor cfg gf args fs) = fs
   \<and> acquireStoreLock env (snd (readStoreLock fs dir)) dir = acquireStoreLock env fs dir
   \<and> acquireStoreLock env (snd (runDoctor cfg gf args fs)) dir = acquireStoreLock env fs dir
   \<and> (\<forall>st. fst (readStoreLock fs dir) = Inr st \<longrightarrow>
         exists st = markerExists fs dir \<and> info st = lockReport fs dir)
   \<and> (\<forall>payload connect. fst (runDoctor cfg gf args fs) = Inr (Doctor payload connect) \<longrightarrow>
         payload_storeDir payload = resolveStoreDir cfg (flag_store gf)
         \<and> lockHeld payload = markerExists fs (payload_storeDir payload)
         \<and> lockInfo payload = lockReport fs (payload_storeDir payload))"
proof (intro conjI allI impI)
  show "snd (readStoreLock fs dir) = fs" by (rule readStoreLock_frame)
  show "snd (runDoctor cfg gf args fs) = fs" by (rule runDoctor_frame)
  show "acquireStoreLock env (snd (readStoreLock fs dir)) dir = acquireStoreLock env fs dir"
    by (simp add: readStoreLock_frame)
  show "acquireStoreLock env (snd (runDoctor cfg gf args fs)) dir = acquireStoreLock env fs dir"
    by (simp add: runDoctor_frame)
next
  fix st assume "fst (readStoreLock fs dir) = Inr st"
  then have "readStoreLock fs dir = (Inr st, snd (readStoreLock fs dir))"
    by (metis prod.collapse)
  from readStoreLock_report [OF this]
  show "exists st = markerExists fs dir" and "info st = lockReport fs dir" by simp_all
next
  fix payload connect
  assume a: "fst (runDoctor cfg gf args fs) = Inr (Doctor payload connect)"
  let ?d = "resolveStoreDir cfg (flag_store gf)"
  from a obtain st fs' where r: "readStoreLock fs ?d = (Inr st, fs')"
    and p: "payload = \<lparr>payload_storeDir = ?d, lockHeld = exists st, lockInfo = info st\<rparr>"
    by (auto simp: runDoctor_def Let_def split: sum.splits prod.splits)
  from readStoreLock_report [OF r] p
  show "payload_storeDir payload = ?d"
    and "lockHeld payload = markerExists fs (payload_storeDir payload)"
    and "lockInfo payload = lockReport fs (payload_storeDir payload)"
    by simp_all
qed

lemma parseFlags_nil: "parseFlags [] spec = Inr (Map.empty, [])"
  by (simp add: parseFlags_def)

theorem inspect_leaves_lock_witness:
  \<open>runDoctor sampleCfg noGlobalFlags [] lockedStore =
     (Inr (Doctor \<lparr>payload_storeDir = sampleDir, lockHeld = True,
              lockInfo = Some ''{"pid":4242,"startedAt":"2024-01-01T00:00:00.000Z"}''\<rparr> False),
      lockedStore)
   \<and> markerExists lockedStore sampleDir
   \<and> lockedLine \<lparr>payload_storeDir = sampleDir, lockHeld = True,
              lockInfo = Some ''{"pid":4242,"startedAt":"2024-01-01T00:00:00.000Z"}''\<rparr> =
       ''LOCKED: true ({"pid":4242,"startedAt":"2024-01-01T00:00:00.000Z"})''\<close>
proof -
  have l: "lockedStore (path_join sampleDir ''LOCK'') = Some (File (lockPayload sampleEnv))"
    by (simp add: lockedStore_def)
  have r: "resolveStoreDir sampleCfg (flag_store noGlobalFlags) = sampleDir"
    by (simp add: resolveStoreDir_def noGlobalFlags_def sampleCfg_def)
  have d: "runDoctor sampleCfg noGlobalFlags [] lockedStore =
     (Inr (Doctor \<lparr>payload_storeDir = sampleDir, lockHeld = True,
              lockInfo = Some (lockPayload sampleEnv)\<rparr> False), lockedStore)"
    by (simp add: runDoctor_def parseFlags_nil r readStoreLock_file [of lockedStore sampleDir, OF l]
        lockPayload_trim truthy_def)
  have m: "markerExists lockedStore sampleDir"
    by (simp add: markerExists_def isRegularFile_def l)
  have ll: \<open>lockedLine \<lparr>payload_storeDir = sampleDir, lockHeld = True,
              lockInfo = Some ''{"pid":4242,"startedAt":"2024-01-01T00:00:00.000Z"}''\<rparr> =
       ''LOCKED: true ({"pid":4242,"startedAt":"2024-01-01T00:00:00.000Z"})''\<close>
    by (simp add: lockedLine_def)
  from inspect_leaves_lock [of lockedStore sampleDir sampleCfg noGlobalFlags "[]" sampleEnv] d m ll
  show ?thesis by (simp add: lockPayload_sampleEnv)
qed

section \<open>Failures of the lock at the command line\<close>

lemma writeError_plain: "writeError (new_Error m) False = m @ [CHR 0x0A]"
  by (simp add: writeError_def new_Error_def)

lemma writeError_json:
  \<open>writeError (new_Error m) True = ''{"ok":false,"error":'' @ json_string m @ ''}'' @ [CHR 0x0A]\<close>
  by (simp add: writeError_def new_Error_def json_string_def json_escape_def)

text \<open>
  C4, as amended. When a command that takes the lock finds a marker in the store
  directory, \<^verbatim>\<open>main\<close> writes to the standard error stream the message
  \<^verbatim>\<open>Store is locked by another process\<close>, followed by the marker's trimmed contents in
  parentheses when they are not empty (with \<^verbatim>\<open>--json\<close>: the object with \<^verbatim>\<open>ok\<close> false and
  that message as \<^verbatim>\<open>error\<close>), and exits with status 1. The acquisition is attempted once
  and the file system is left as it was. The output carries the message only, no name of
  an error class.
\<close>

theorem lock_failure_surfaces_message:
  assumes "parseGlobalFlags (drop 2 argv) = Inr (gf, rest)" and "\<not> flag_help gf"
    and "acquiringCommand rest"
    and "fs (path_join (resolveStoreDir cfg (flag_store gf)) ''LOCK'') = Some (File c)"
    and "fs (resolveStoreDir cfg (flag_store gf)) = Some Dir"
  shows \<open>main cfg env argv fs =
     (Exited 1
        (if ''--json'' \<in> set argv
         then ''{"ok":false,"error":'' @
              json_string (''Store is locked by another process'' @ lockDetails c) @ ''}'' @ [CHR 0x0A]
         else ''Store is locked by another process'' @ lockDetails c @ [CHR 0x0A]),
      fs)\<close>
proof -
  let ?e = "new_Error (''Store is locked by another process'' @ lockDetails c)"
  let ?d = "resolveStoreDir cfg (flag_store gf)"
  have acq: "acquireStoreLock env fs ?d = (Inl ?e, fs)"
    using assms(4,5) by (rule acquire_held_dir)
  from assms(3) obtain command args where rest: "rest = command # args"
    by (cases rest) (simp_all add: acquiringCommand_def)
  have run: "main cfg env argv fs = (Exited 1 (writeError ?e (''--json'' \<in> set argv)), fs)"
  proof (cases "command = ''sync''")
    case True
    with assms(3) rest obtain fl r where
      "parseFlags args [(''once'', BooleanFlag), (''follow'', BooleanFlag), (''idle-exit'', StringFlag)] = Inr (fl, r)"
      by (auto simp: acquiringCommand_def split: sum.splits)
    with True rest assms(1,2) acq show ?thesis
      by (simp add: main_def runSync_def Let_def)
  next
    case False
    with assms(3) rest have auth: "command = ''auth''"
      by (auto simp: acquiringCommand_def split: if_splits)
    with assms(3) rest obtain fl r where
      pf: "parseFlags args [(''follow'', BooleanFlag)] = Inr (fl, r)"
      and ns: "\<not> (r \<noteq> [] \<and> hd r = ''status'')"
      by (auto simp: acquiringCommand_def split: sum.splits)
    from auth rest assms(1,2) acq pf ns show ?thesis
      by (simp add: main_def runAuth_def Let_def)
  qed
  show ?thesis
  proof (cases "''--json'' \<in> set argv")
    case True
    then show ?thesis unfolding run by (simp only: writeError_json if_True)
  next
    case False
    then show ?thesis unfolding run by (simp only: writeError_plain if_False append_assoc)
  qed
qed

lemma lockDetails_payload:
  \<open>lockDetails (lockPayload sampleEnv) = '' ({"pid":4242,"startedAt":"2024-01-01T00:00:00.000Z"})''\<close>
  by (simp add: lockDetails_def lockPayload_trim) (simp add: lockPayload_sampleEnv)

lemma sync_acquires: "acquiringCommand [''sync'']"
  by (simp add: acquiringCommand_def parseFlags_nil)

lemma parseGlobalFlags_sync:
  "parseGlobalFlags [''sync''] = Inr (noGlobalFlags, [''sync''])"
  by (simp add: parseGlobalFlags_def noGlobalFlags_def startsWith_def)

lemma parseGlobalFlags_json_sync:
  "parseGlobalFlags [''--json'', ''sync''] = Inr (noGlobalFlags\<lparr>flag_json := True\<rparr>, [''sync''])"
  by (simp add: parseGlobalFlags_def noGlobalFlags_def startsWith_def)

lemma lockedStore_nodes:
  "lockedStore (path_join (resolveStoreDir sampleCfg None) ''LOCK'') = Some (File (lockPayload sampleEnv))"
  "lockedStore (resolveStoreDir sampleCfg None) = Some Dir"
  by (simp_all add: lockedStore_def resolveStoreDir_def sampleCfg_def)

theorem lock_failure_surfaces_message_witness:
  \<open>main sampleCfg otherEnv [''node'', ''cli.js'', ''sync''] lockedStore =
     (Exited 1
        (''Store is locked by another process ({"pid":4242,"startedAt":"2024-01-01T00:00:00.000Z"})''
           @ [CHR 0x0A]),
      lockedStore)\<close>
proof -
  have a: "parseGlobalFlags (drop 2 [''node'', ''cli.js'', ''sync'']) = Inr (noGlobalFlags, [''sync''])"
    by (simp add: parseGlobalFlags_sync)
  have b: "\<not> flag_help noGlobalFlags" by (simp add: noGlobalFlags_def)
  have s: "flag_store noGlobalFlags = None" by (simp add: noGlobalFlags_def)
  from lock_failure_surfaces_message [OF a b sync_acquires, of lockedStore sampleCfg
      "lockPayload sampleEnv" otherEnv] lockedStore_nodes
  show ?thesis
    by (simp add: s lockDetails_payload)
qed

text \<open>
  The claim as first stated fails: for \<^verbatim>\<open>sync\<close> on a locked store the whole output is the
  message line, or with \<^verbatim>\<open>--json\<close> the object that holds the message; the name
  LockHeldError occurs in neither, and the error thrown is a plain \<^verbatim>\<open>Error\<close>.
\<close>

theorem lock_failure_name_counterexample:
  \<open>fst (main sampleCfg otherEnv [''node'', ''cli.js'', ''sync''] lockedStore) =
     Exited 1
       (''Store is locked by another process ({"pid":4242,"startedAt":"2024-01-01T00:00:00.000Z"})''
          @ [CHR 0x0A])
   \<and> \<not> containsText ''LockHeldError''
       (''Store is locked by another process ({"pid":4242,"startedAt":"2024-01-01T00:00:00.000Z"})''
          @ [CHR 0x0A])
   \<and> fst (main sampleCfg otherEnv [''node'', ''cli.js'', ''--json'', ''sync''] lockedStore) =
     Exited 1
       (''{"ok":false,"error":'' @
        json_string
          ''Store is locked by another process ({"pid":4242,"startedAt":"2024-01-01T00:00:00.000Z"})''
        @ ''}'' @ [CHR 0x0A])
   \<and> \<not> containsText ''LockHeldError''
       (''{"ok":false,"error":'' @
        json_string
          ''Store is locked by another process ({"pid":4242,"startedAt":"2024-01-01T00:00:00.000Z"})''
        @ ''}'' @ [CHR 0x0A])
   \<and> error_name
        (new_Error ''Store is locked by another process ({"pid":4242,"startedAt":"2024-01-01T00:00:00.000Z"})'')
      \<noteq> ''LockHeldError''\<close>
proof -
  let ?e = "new_Error (''Store is locked by another process'' @ lockDetails (lockPayload sampleEnv))"
  have acq: "acquireStoreLock otherEnv lockedStore sampleDir = (Inl ?e, lockedStore)"
    by (rule acquire_held_dir) (simp_all add: lockedStore_def)
  have "main sampleCfg otherEnv [''node'', ''cli.js'', ''sync''] lockedStore =
     (Exited 1 (writeError ?e False), lockedStore)"
    by (simp add: main_def parseGlobalFlags_sync noGlobalFlags_def runSync_def parseFlags_nil
        resolveStoreDir_def sampleCfg_def acq)
  then have m: "fst (main sampleCfg otherEnv [''node'', ''cli.js'', ''sync''] lockedStore) =
     Exited 1 (''Store is locked by another process'' @ lockDetails (lockPayload sampleEnv) @ [CHR 0x0A])"
    by (simp only: writeError_plain fst_conv append_assoc)
  have "main sampleCfg otherEnv [''node'', ''cli.js'', ''--json'', ''sync''] lockedStore =
     (Exited 1 (writeError ?e True), lockedStore)"
    by (simp add: main_def parseGlobalFlags_json_sync noGlobalFlags_def runSync_def parseFlags_nil
        resolveStoreDir_def sampleCfg_def acq)
  then have j: \<open>fst (main sampleCfg otherEnv [''node'', ''cli.js'', ''--json'', ''sync''] lockedStore) =
     Exited 1 (''{"ok":false,"error":'' @
       json_string (''Store is locked by another process'' @ lockDetails (lockPayload sampleEnv))
       @ ''}'' @ [CHR 0x0A])\<close>
    by (simp only: writeError_json fst_conv)
  have c: \<open>\<not> containsText ''LockHeldError''
       (''Store is locked by another process ({"pid":4242,"startedAt":"2024-01-01T00:00:00.000Z"})''
          @ [CHR 0x0A])\<close>
    by simp
  have cj: \<open>\<not> containsText ''LockHeldError''
       (''{"ok":false,"error":'' @
        json_string
          ''Store is locked by another process ({"pid":4242,"startedAt":"2024-01-01T00:00:00.000Z"})''
        @ ''}'' @ [CHR 0x0A])\<close>
    by (simp add: json_string_def json_escape_def)
  have n: "error_name e \<noteq> ''LockHeldError''" for e
    by (simp add: error_name_def)
  from m j show ?thesis
    unfolding lockDetails_payload using c cj n by simp
qed

section \<open>parseDuration\<close>

lemma isDigit_not_ws: "isDigit c \<Longrightarrow> \<not> isWhiteSpace c"
  by (auto simp: isDigit_def isWhiteSpace_def)

lemma trim_surround:
  assumes "\<forall>c\<in>set ws1. isWhiteSpace c" "\<forall>c\<in>set ws2. isWhiteSpace c"
    and "core \<noteq> []" "\<not> isWhiteSpace (hd core)" "\<not> isWhiteSpace (last core)"
  shows "trim (ws1 @ core @ ws2) = core"
proof -
  from assms(3,4) have a: "dropWhile isWhiteSpace (core @ ws2) = core @ ws2"
    by (cases core) simp_all
  from assms(1) have "dropWhile isWhiteSpace (ws1 @ core @ ws2) = dropWhile isWhiteSpace (core @ ws2)"
    by simp
  with a have b: "dropWhile isWhiteSpace (ws1 @ core @ ws2) = core @ ws2" by simp
  from assms(3,5) have c: "dropWhile isWhiteSpace (rev core) = rev core"
    by (cases core rule: rev_cases) simp_all
  from assms(2) have "x \<in> set (rev ws2) \<Longrightarrow> isWhiteSpace x" for x by simp
  then have "dropWhile isWhiteSpace (rev ws2 @ rev core) = dropWhile isWhiteSpace (rev core)"
    by (rule dropWhile_append2)
  with b c show ?thesis by (simp add: trim_def)
qed

lemma trim_decompose:
  "\<exists>ws1 ws2. v = ws1 @ trim v @ ws2 \<and> (\<forall>c\<in>set ws1. isWhiteSpace c) \<and> (\<forall>c\<in>set ws2. isWhiteSpace c)"
proof -
  let ?x = "dropWhile isWhiteSpace v"
  let ?ws1 = "takeWhile isWhiteSpace v"
  let ?ws2 = "rev (takeWhile isWhiteSpace (rev ?x))"
  have "rev (rev ?x) = rev (dropWhile isWhiteSpace (rev ?x)) @ rev (takeWhile isWhiteSpace (rev ?x))"
    by (metis rev_append takeWhile_dropWhile_id)
  then have "?x = trim v @ ?ws2" by (simp only: rev_rev_ident trim_def)
  moreover have "v = ?ws1 @ ?x" by simp
  ultimately have "v = ?ws1 @ trim v @ ?ws2" by simp
  moreover have "\<forall>c\<in>set ?ws1. isWhiteSpace c" by (auto dest: set_takeWhileD)
  moreover have "\<forall>c\<in>set ?ws2. isWhiteSpace c" by (auto dest: set_takeWhileD)
  ultimately show ?thesis by blast
qed

lemma unitFactor_cases:
  "unitFactor u \<noteq> None \<longleftrightarrow>
   u = [] \<or> u \<in> set [''ms'', ''mS'', ''Ms'', ''MS'', ''s'', ''S'', ''m'', ''M'', ''h'', ''H'']"
  by (auto simp: unitFactor_def)

lemma unit_shape:
  assumes "unitFactor u \<noteq> None" "u \<noteq> []"
  shows "\<not> isDigit (hd u) \<and> \<not> isWhiteSpace (last u)"
  using assms unfolding unitFactor_cases
  by (auto simp: isDigit_def isWhiteSpace_def)

lemma matchDuration_parts:
  assumes "digits \<noteq> []" "\<forall>c\<in>set digits. isDigit c" "unitFactor u \<noteq> None"
  shows "matchDuration (digits @ u) = Some (digits, if u = [] then None else Some u)"
proof (cases "u = []")
  case True
  from assms(2) have t: "takeWhile isDigit digits = digits" and d: "dropWhile isDigit digits = []"
    by simp_all
  from True assms(1) show ?thesis
    unfolding matchDuration_def Let_def by (simp only: append_Nil2 t d if_False if_True refl)
next
  case False
  with assms(3) have nd: "\<not> isDigit (hd u)" by (simp add: unit_shape)
  with False assms(2) have t: "takeWhile isDigit (digits @ u) = digits"
    by (cases u) simp_all
  from nd False assms(2) have d: "dropWhile isDigit (digits @ u) = u"
    by (cases u) simp_all
  from assms(3) False have "u \<in> set [''ms'', ''mS'', ''Ms'', ''MS'', ''s'', ''S'', ''m'', ''M'', ''h'', ''H'']"
    by (simp only: unitFactor_cases) simp
  with t d False assms(1) show ?thesis
    by (simp only: matchDuration_def Let_def) simp
qed

lemma trim_parts:
  assumes "durationParts ws1 digits u ws2"
  shows "trim (ws1 @ digits @ u @ ws2) = digits @ u"
proof -
  from assms have d: "digits \<noteq> []" "\<forall>c\<in>set digits. isDigit c" "unitFactor u \<noteq> None"
    and w: "\<forall>c\<in>set ws1. isWhiteSpace c" "\<forall>c\<in>set ws2. isWhiteSpace c"
    by (simp_all add: durationParts_def)
  from d(1,2) have h: "\<not> isWhiteSpace (hd (digits @ u))"
    by (cases digits) (simp_all add: isDigit_not_ws)
  have l: "\<not> isWhiteSpace (last (digits @ u))"
  proof (cases "u = []")
    case True
    with d(1,2) show ?thesis by (simp add: isDigit_not_ws)
  next
    case False
    with d(3) show ?thesis by (simp add: unit_shape)
  qed
  from d(1) have "digits @ u \<noteq> []" by simp
  from trim_surround [OF w this h l] show ?thesis by simp
qed

lemma toLowerCase_units:
  "toLowerCase ''ms'' = ''ms''" "toLowerCase ''mS'' = ''ms''" "toLowerCase ''Ms'' = ''ms''"
  "toLowerCase ''MS'' = ''ms''" "toLowerCase ''s'' = ''s''" "toLowerCase ''S'' = ''s''"
  "toLowerCase ''m'' = ''m''" "toLowerCase ''M'' = ''m''" "toLowerCase ''h'' = ''h''"
  "toLowerCase ''H'' = ''h''"
  by (simp_all add: toLowerCase_def Let_def char_of_def bit_0)

lemma roundToDouble_exact: "n < 2 ^ 53 \<Longrightarrow> roundToDouble n = Finite n"
  by (simp add: roundToDouble_def)

lemma js_times_exact: "a * k < 2 ^ 53 \<Longrightarrow> js_times (Finite a) k = Finite (a * k)"
  by (simp add: js_times_def roundToDouble_exact)

lemma unitFactor_values:
  "unitFactor [] = Some 1000" "unitFactor ''s'' = Some 1000" "unitFactor ''S'' = Some 1000"
  "unitFactor ''ms'' = Some 1" "unitFactor ''mS'' = Some 1" "unitFactor ''Ms'' = Some 1"
  "unitFactor ''MS'' = Some 1" "unitFactor ''m'' = Some 60000" "unitFactor ''M'' = Some 60000"
  "unitFactor ''h'' = Some 3600000" "unitFactor ''H'' = Some 3600000"
  by (simp_all add: unitFactor_def)

lemma parseDuration_matched:
  assumes "trim v \<noteq> []" and "matchDuration (trim v) = Some (digits, g)"
    and "toLowerCase (case g of None \<Rightarrow> ''s'' | Some u \<Rightarrow> u) = unit"
  shows "parseDuration (JSString v) =
     (if unit = ''ms'' then Inr (Some (Number digits))
      else if unit = ''s'' then Inr (Some (js_times (Number digits) 1000))
      else if unit = ''m'' then Inr (Some (js_times (js_times (Number digits) 60) 1000))
      else if unit = ''h'' then Inr (Some (js_times (js_times (js_times (Number digits) 60) 60) 1000))
      else Inr (Some (js_times (Number digits) 1000)))"
  unfolding parseDuration_def Let_def
  by (simp only: js_value.simps assms option.simps prod.simps if_False)

lemma scaled_values:
  "scaled x 1 = x" "scaled x (Suc 0) = x" "scaled x 1000 = js_times x 1000"
  "scaled x 60000 = js_times (js_times x 60) 1000"
  "scaled x 3600000 = js_times (js_times (js_times x 60) 60) 1000"
  by (simp_all add: scaled_def)

lemma parseDuration_parts:
  assumes "durationParts ws1 digits u ws2" and "unitFactor u = Some f"
  shows "parseDuration (JSString (ws1 @ digits @ u @ ws2)) = Inr (Some (scaled (Number digits) f))"
proof -
  let ?v = "ws1 @ digits @ u @ ws2"
  from assms(1) have d: "digits \<noteq> []" "\<forall>c\<in>set digits. isDigit c" "unitFactor u \<noteq> None"
    by (simp_all add: durationParts_def)
  have t: "trim ?v = digits @ u"
    using assms(1) by (rule trim_parts)
  with d(1) have ne: "trim ?v \<noteq> []" by simp
  have "matchDuration (digits @ u) = Some (digits, if u = [] then None else Some u)"
    using d by (rule matchDuration_parts)
  with t have m: "matchDuration (trim ?v) = Some (digits, if u = [] then None else Some u)"
    by simp
  note pm = parseDuration_matched [OF ne m]
  from d(3) have "u = [] \<or> u \<in> set [''ms'', ''mS'', ''Ms'', ''MS'', ''s'', ''S'', ''m'', ''M'', ''h'', ''H'']"
    by (simp only: unitFactor_cases)
  then have "u = [] \<or> u = ''ms'' \<or> u = ''mS'' \<or> u = ''Ms'' \<or> u = ''MS''
    \<or> u = ''s'' \<or> u = ''S'' \<or> u = ''m'' \<or> u = ''M'' \<or> u = ''h'' \<or> u = ''H''"
    by (simp only: list.set insert_iff empty_iff simp_thms)
  then consider "u = []" | "u = ''ms''" | "u = ''mS''" | "u = ''Ms''" | "u = ''MS''"
    | "u = ''s''" | "u = ''S''" | "u = ''m''" | "u = ''M''" | "u = ''h''" | "u = ''H''"
    by blast
  then show ?thesis
  proof cases
    case 1
    with assms(2) have f: "f = 1000" by (simp add: unitFactor_values)
    from 1 have "toLowerCase (case (if u = [] then None else Some u) of None \<Rightarrow> ''s'' | Some u \<Rightarrow> u) = ''s''"
      by (simp add: toLowerCase_units)
    from pm [OF this] f show ?thesis by (simp add: scaled_values)
  next
    case 2
    with assms(2) have f: "f = 1" by (simp add: unitFactor_values)
    from 2 have "toLowerCase (case (if u = [] then None else Some u) of None \<Rightarrow> ''s'' | Some u \<Rightarrow> u) = ''ms''"
      by (simp add: toLowerCase_units)
    from pm [OF this] f show ?thesis by (simp add: scaled_values)
  next
    case 3
    with assms(2) have f: "f = 1" by (simp add: unitFactor_values)
    from 3 have "toLowerCase (case (if u = [] then None else Some u) of None \<Rightarrow> ''s'' | Some u \<Rightarrow> u) = ''ms''"
      by (simp add: toLowerCase_units)
    from pm [OF this] f show ?thesis by (simp add: scaled_values)
  next
    case 4
    with assms(2) have f: "f = 1" by (simp add: unitFactor_values)
    from 4 have "toLowerCase (case (if u = [] then None else Some u) of None \<Rightarrow> ''s'' | Some u \<Rightarrow> u) = ''ms''"
      by (simp add: toLowerCase_units)
    from pm [OF this] f show ?thesis by (simp add: scaled_values)
  next
    case 5
    with assms(2) have f: "f = 1" by (simp add: unitFactor_values)
    from 5 have "toLowerCase (case (if u = [] then None else Some u) of None \<Rightarrow> ''s'' | Some u \<Rightarrow> u) = ''ms''"
      by (simp add: toLowerCase_units)
    from pm [OF this] f show ?thesis by (simp add: scaled_values)
  next
    case 6
    with assms(2) have f: "f = 1000" by (simp add: unitFactor_values)
    from 6 have "toLowerCase (case (if u = [] then None else Some u) of None \<Rightarrow> ''s'' | Some u \<Rightarrow> u) = ''s''"
      by (simp add: toLowerCase_units)
    from pm [OF this] f show ?thesis by (simp add: scaled_values)
  next
    case 7
    with assms(2) have f: "f = 1000" by (simp add: unitFactor_values)
    from 7 have "toLowerCase (case (if u = [] then None else Some u) of None \<Rightarrow> ''s'' | Some u \<Rightarrow> u) = ''s''"
      by (simp add: toLowerCase_units)
    from pm [OF this] f show ?thesis by (simp add: scaled_values)
  next
    case 8
    with assms(2) have f: "f = 60000" by (simp add: unitFactor_values)
    from 8 have "toLowerCase (case (if u = [] then None else Some u) of None \<Rightarrow> ''s'' | Some u \<Rightarrow> u) = ''m''"
      by (simp add: toLowerCase_units)
    from pm [OF this] f show ?thesis by (simp add: scaled_values)
  next
    case 9
    with assms(2) have f: "f = 60000" by (simp add: unitFactor_values)
    from 9 have "toLowerCase (case (if u = [] then None else Some u) of None \<Rightarrow> ''s'' | Some u \<Rightarrow> u) = ''m''"
      by (simp add: toLowerCase_units)
    from pm [OF this] f show ?thesis by (simp add: scaled_values)
  next
    case 10
    with assms(2) have f: "f = 3600000" by (simp add: unitFactor_values)
    from 10 have "toLowerCase (case (if u = [] then None else Some u) of None \<Rightarrow> ''s'' | Some u \<Rightarrow> u) = ''h''"
      by (simp add: toLowerCase_units)
    from pm [OF this] f show ?thesis by (simp add: scaled_values)
  next
    case 11
    with assms(2) have f: "f = 3600000" by (simp add: unitFactor_values)
    from 11 have "toLowerCase (case (if u = [] then None else Some u) of None \<Rightarrow> ''s'' | Some u \<Rightarrow> u) = ''h''"
      by (simp add: toLowerCase_units)
    from pm [OF this] f show ?thesis by (simp add: scaled_values)
  qed
qed

lemma scaled_exact:
  assumes "f \<in> {1, 1000, 60000, 3600000}" and "a * f < 2 ^ 53"
  shows "scaled (Finite a) f = Finite (a * f)"
proof -
  from assms(1) consider "f = 1" | "f = 1000" | "f = 60000" | "f = 3600000" by auto
  then show ?thesis
  proof cases
    case 1 then show ?thesis by (simp add: scaled_def)
  next
    case 2 with assms(2) show ?thesis by (simp add: scaled_def js_times_exact)
  next
    case 3
    with assms(2) have "a * 60 < 2 ^ 53" and "a * 60 * 1000 < 2 ^ 53" by simp_all
    with 3 show ?thesis by (simp add: scaled_def js_times_exact)
  next
    case 4
    with assms(2) have "a * 60 < 2 ^ 53" and "a * 60 * 60 < 2 ^ 53" and "a * 60 * 60 * 1000 < 2 ^ 53"
      by simp_all
    with 4 show ?thesis by (simp add: scaled_def js_times_exact)
  qed
qed

lemma unitFactor_range: "unitFactor u = Some f \<Longrightarrow> f \<in> {1, 1000, 60000, 3600000}"
  by (auto simp: unitFactor_def split: if_splits)

lemma matchDuration_grammar:
  assumes "matchDuration (trim v) = Some (ds, g)"
  shows "durationText v"
proof -
  let ?raw = "trim v"
  let ?d = "takeWhile isDigit ?raw" and ?u = "dropWhile isDigit ?raw"
  from assms have d: "?d \<noteq> []"
    and u: "?u = [] \<or> ?u \<in> set [''ms'', ''mS'', ''Ms'', ''MS'', ''s'', ''S'', ''m'', ''M'', ''h'', ''H'']"
    by (auto simp: matchDuration_def Let_def split: if_splits)
  obtain ws1 ws2 where v: "v = ws1 @ ?raw @ ws2"
    and w: "\<forall>c\<in>set ws1. isWhiteSpace c" "\<forall>c\<in>set ws2. isWhiteSpace c"
    using trim_decompose by blast
  from v have "v = ws1 @ ?d @ ?u @ ws2"
    by (metis append_assoc takeWhile_dropWhile_id)
  moreover have "durationParts ws1 ?d ?u ws2"
  proof -
    from u have "unitFactor ?u \<noteq> None" by (simp only: unitFactor_cases)
    moreover have "\<forall>c\<in>set ?d. isDigit c" by (auto dest: set_takeWhileD)
    ultimately show ?thesis using d w unfolding durationParts_def by blast
  qed
  ultimately show ?thesis unfolding durationText_def by blast
qed

text \<open>
  C9, as amended. For every text of the grammar \<^verbatim>\<open>parseDuration\<close> returns a number, and
  whenever the duration in milliseconds (the decimal value of the digits times the
  unit's factor) is below \<open>2^53\<close> it returns exactly that duration. For every other text
  that is not blank it throws the error \<^verbatim>\<open>Invalid duration\<close> with the text as given; for
  a blank string and for a value that is not a string it returns \<^verbatim>\<open>null\<close>.
\<close>

theorem parseDuration_grammar:
  "(\<forall>ws1 digits u ws2 f. durationParts ws1 digits u ws2 \<and> unitFactor u = Some f \<longrightarrow>
      (\<exists>n. parseDuration (JSString (ws1 @ digits @ u @ ws2)) = Inr (Some n))
      \<and> (decimal_value digits * f < 2 ^ 53 \<longrightarrow>
           parseDuration (JSString (ws1 @ digits @ u @ ws2)) =
             Inr (Some (Finite (decimal_value digits * f)))))
   \<and> (\<forall>v. trim v \<noteq> [] \<and> \<not> durationText v \<longrightarrow>
         parseDuration (JSString v) = Inl (new_Error (''Invalid duration: '' @ v)))
   \<and> (\<forall>v. trim v = [] \<longrightarrow> parseDuration (JSString v) = Inr None)
   \<and> parseDuration JSOther = Inr None"
proof (intro conjI allI impI)
  fix ws1 digits u ws2 f
  assume a: "durationParts ws1 digits u ws2 \<and> unitFactor u = Some f"
  then have p: "parseDuration (JSString (ws1 @ digits @ u @ ws2)) = Inr (Some (scaled (Number digits) f))"
    by (simp add: parseDuration_parts)
  then show "\<exists>n. parseDuration (JSString (ws1 @ digits @ u @ ws2)) = Inr (Some n)" by blast
  assume s: "decimal_value digits * f < 2 ^ 53"
  from a have "unitFactor u = Some f" by simp
  then have f: "f \<in> {1, 1000, 60000, 3600000}" by (rule unitFactor_range)
  then have "0 < f" by auto
  then have "decimal_value digits \<le> decimal_value digits * f" by simp
  with s have "decimal_value digits < 2 ^ 53" by linarith
  then have "Number digits = Finite (decimal_value digits)"
    by (simp add: Number_def roundToDouble_exact)
  with p scaled_exact [OF f s]
  show "parseDuration (JSString (ws1 @ digits @ u @ ws2)) = Inr (Some (Finite (decimal_value digits * f)))"
    by simp
next
  fix v assume a: "trim v \<noteq> [] \<and> \<not> durationText v"
  then have "matchDuration (trim v) = None"
    using matchDuration_grammar [of v] by (cases "matchDuration (trim v)") auto
  with a show "parseDuration (JSString v) = Inl (new_Error (''Invalid duration: '' @ v))"
    by (simp add: parseDuration_def Let_def)
next
  fix v assume "trim v = []"
  then show "parseDuration (JSString v) = Inr None" by (simp add: parseDuration_def)
next
  show "parseDuration JSOther = Inr None" by (simp add: parseDuration_def)
qed

lemma durationText_match:
  assumes "durationText v"
  shows "trim v \<noteq> [] \<and> matchDuration (trim v) \<noteq> None"
proof -
  from assms obtain ws1 digits u ws2 where v: "v = ws1 @ digits @ u @ ws2"
    and p: "durationParts ws1 digits u ws2"
    unfolding durationText_def by blast
  from p have d: "digits \<noteq> []" "\<forall>c\<in>set digits. isDigit c" "unitFactor u \<noteq> None"
    by (simp_all add: durationParts_def)
  from trim_parts [OF p] v have "trim v = digits @ u" by simp
  with matchDuration_parts [OF d] d(1) show ?thesis by simp
qed

lemma decimal_value_big: "decimal_value ''9007199254740993'' = 9007199254740993"
  by (simp add: decimal_value_def)

lemma bitlen_big: "bitlen 9007199254740993 = 54"
  by (simp add: bitlen.simps)

lemma roundToDouble_big: "roundToDouble 9007199254740993 = Finite 9007199254740992"
  by (simp add: roundToDouble_def bitlen_big Let_def)

lemma parts_big: "durationParts [] ''9007199254740993'' ''ms'' []"
  by (simp add: durationParts_def isDigit_def unitFactor_values)

text \<open>
  The claim as first stated fails where doubles round: \<^verbatim>\<open>9007199254740993ms\<close> is a text
  of the grammar whose digits denote \<open>2^53 + 1\<close>, and the function returns \<open>2^53\<close>.
\<close>

theorem parseDuration_rounds_counterexample:
  "durationParts [] ''9007199254740993'' ''ms'' []
   \<and> decimal_value ''9007199254740993'' = 9007199254740993
   \<and> parseDuration (JSString ''9007199254740993ms'') = Inr (Some (Finite 9007199254740992))
   \<and> parseDuration (JSString ''9007199254740993ms'')
       \<noteq> Inr (Some (Finite (decimal_value ''9007199254740993'')))"
proof -
  have "parseDuration (JSString ([] @ ''9007199254740993'' @ ''ms'' @ [])) =
      Inr (Some (scaled (Number ''9007199254740993'') 1))"
    using parts_big unitFactor_values(4) by (rule parseDuration_parts)
  then have "parseDuration (JSString ''9007199254740993ms'') = Inr (Some (Finite 9007199254740992))"
    by (simp add: scaled_values Number_def decimal_value_big roundToDouble_big)
  with parts_big decimal_value_big show ?thesis by simp
qed

theorem parseDuration_grammar_witness:
  "parseDuration (JSString '' 5M '') = Inr (Some (Finite 300000))
   \<and> parseDuration (JSString ''abc'') = Inl (new_Error ''Invalid duration: abc'')
   \<and> parseDuration (JSString ''  '') = Inr None"
proof -
  have p: "durationParts '' '' ''5'' ''M'' '' '' \<and> unitFactor ''M'' = Some 60000"
    by (simp add: durationParts_def isDigit_def isWhiteSpace_def unitFactor_values)
  have d: "decimal_value ''5'' * 60000 = 300000" "decimal_value ''5'' * 60000 < 2 ^ 53"
    by (simp_all add: decimal_value_def)
  have t: "trim ''abc'' = ''abc''" "trim ''  '' = []"
    by (simp_all add: trim_def isWhiteSpace_def)
  have "matchDuration ''abc'' = None"
    by (simp add: matchDuration_def isDigit_def)
  with t(1) durationText_match [of "''abc''"] have n: "trim ''abc'' \<noteq> [] \<and> \<not> durationText ''abc''"
    by auto
  note g = parseDuration_grammar
  from g [THEN conjunct1, rule_format, OF p, THEN conjunct2, rule_format, OF d(2)]
  have a: "parseDuration (JSString '' 5M '') = Inr (Some (Finite 300000))"
    by (simp add: d(1))
  from g [THEN conjunct2, THEN conjunct1, rule_format, OF n]
  have b: "parseDuration (JSString ''abc'') = Inl (new_Error ''Invalid duration: abc'')"
    by simp
  from g [THEN conjunct2, THEN conjunct2, THEN conjunct1, rule_format, OF t(2)]
  have c: "parseDuration (JSString ''  '') = Inr None" .
  from a b c show ?thesis by simp
qed

section \<open>The mode of the sync command\<close>

lemma split_samples:
  "split CHR ''='' ''--idle-exit='' = [''--idle-exit'', []]"
  "split CHR ''='' ''--once'' = [''--once'']"
  "split CHR ''='' ''--idle-exit=5s'' = [''--idle-exit'', ''5s'']"
  by simp_all

lemma lookup_samples:
  "lookupRule syncFlags ''idle-exit'' = Some StringFlag"
  "lookupRule syncFlags ''once'' = Some BooleanFlag"
  by (simp_all add: lookupRule_def syncFlags_def)

lemma parseFlags_swallowed:
  "parseFlags [''--idle-exit='', ''--once''] syncFlags = Inr ([''idle-exit'' \<mapsto> FlagString []], [])"
  by (simp add: parseFlags_def startsWith_def split_samples lookup_samples setFlag_def Let_def)

lemma parseFlags_once:
  "parseFlags [''--once''] syncFlags = Inr ([''once'' \<mapsto> FlagTrue], [])"
  by (simp add: parseFlags_def startsWith_def split_samples lookup_samples setFlag_def Let_def)

lemma parseFlags_valued:
  "parseFlags [''--idle-exit=5s'', ''--once''] syncFlags =
     Inr ([''idle-exit'' \<mapsto> FlagString ''5s'', ''once'' \<mapsto> FlagTrue], [])"
  by (simp add: parseFlags_def startsWith_def split_samples lookup_samples setFlag_def Let_def)

lemma parseDuration_30s: "parseDuration (JSString ''30s'') = Inr (Some (Finite 30000))"
proof -
  have p: "durationParts [] ''30'' ''s'' []"
    by (simp add: durationParts_def isDigit_def unitFactor_values)
  have "parseDuration (JSString ([] @ ''30'' @ ''s'' @ [])) = Inr (Some (scaled (Number ''30'') 1000))"
    using p unitFactor_values(2) by (rule parseDuration_parts)
  then show ?thesis
    by (simp add: scaled_values Number_def decimal_value_def roundToDouble_exact js_times_exact)
qed

lemma parseDuration_5s: "parseDuration (JSString ''5s'') = Inr (Some (Finite 5000))"
proof -
  have p: "durationParts [] ''5'' ''s'' []"
    by (simp add: durationParts_def isDigit_def unitFactor_values)
  have "parseDuration (JSString ([] @ ''5'' @ ''s'' @ [])) = Inr (Some (scaled (Number ''5'') 1000))"
    using p unitFactor_values(2) by (rule parseDuration_parts)
  then show ?thesis
    by (simp add: scaled_values Number_def decimal_value_def roundToDouble_exact js_times_exact)
qed

lemma resolve_sample: "resolveStoreDir sampleCfg (flag_store noGlobalFlags) = sampleDir"
  by (simp add: resolveStoreDir_def noGlobalFlags_def sampleCfg_def)

text \<open>
  C10 fails on the code. For \<^verbatim>\<open>sync --idle-exit= --once\<close> the handler chooses follow
  mode, with the default window of 30 seconds: \<^verbatim>\<open>parseFlags\<close> takes the empty text after
  \<^verbatim>\<open>=\<close> as the value and then skips the next argument as well, so \<^verbatim>\<open>--once\<close> is never
  seen. With \<^verbatim>\<open>--once\<close> alone, or after \<^verbatim>\<open>--idle-exit=5s\<close>, it chooses the bounded mode.
\<close>

theorem sync_once_swallowed:
  "fst (runSync sampleCfg sampleEnv noGlobalFlags [''--idle-exit='', ''--once''] Map.empty) =
     Inr (Sync \<lparr>sync_release = sampleClosure, sync_idleExitMs = Some (Finite 30000),
                sync_follow = True\<rparr>)
   \<and> fst (runSync sampleCfg sampleEnv noGlobalFlags [''--once''] Map.empty) =
     Inr (Sync \<lparr>sync_release = sampleClosure, sync_idleExitMs = Some (Finite 30000),
                sync_follow = False\<rparr>)
   \<and> fst (runSync sampleCfg sampleEnv noGlobalFlags [''--idle-exit=5s'', ''--once''] Map.empty) =
     Inr (Sync \<lparr>sync_release = sampleClosure, sync_idleExitMs = Some (Finite 5000),
                sync_follow = False\<rparr>)"
proof -
  obtain fs' where "acquireStoreLock sampleEnv Map.empty sampleDir = (Inr sampleClosure, fs')"
    using acquire_sample by (metis prod.collapse)
  then show ?thesis
    by (simp add: runSync_def parseFlags_swallowed [unfolded syncFlags_def]
        parseFlags_once [unfolded syncFlags_def] parseFlags_valued [unfolded syncFlags_def]
        resolve_sample orElse_def truthy_def parseDuration_30s parseDuration_5s)
qed

text \<open>
  Where no option takes a value, \<^verbatim>\<open>parseFlags\<close> records exactly the boolean flags that
  are named, and \<^verbatim>\<open>runSync\<close> chooses the bounded mode exactly when \<^verbatim>\<open>--once\<close> is named and
  \<^verbatim>\<open>--follow\<close> is not, with a window of 30 seconds.
\<close>

lemma parseFlags_from_valueFree:
  assumes "valueFree spec args"
  shows "\<exists>fl' rest'. parseFlags_from spec fl rest args = Inr (fl', rest') \<and>
     (\<forall>k. k \<noteq> ''__proto__'' \<longrightarrow>
        fl' k = (if lookupRule spec k = Some BooleanFlag \<and> named k args then Some FlagTrue else fl k))"
  using assms
proof (induction args arbitrary: fl rest)
  case Nil
  then show ?case by (simp add: named_def)
next
  case (Cons a args)
  from Cons.prems have vf: "valueFree spec args"
    and ns: "startsWith a ''--'' \<Longrightarrow> lookupRule spec (flagKey a) \<noteq> Some StringFlag"
    by (simp_all add: valueFree_def)
  have nm: "named k (a # args) \<longleftrightarrow> (startsWith a ''--'' \<and> flagKey a = k) \<or> named k args" for k
    by (auto simp: named_def)
  show ?case
  proof (cases "startsWith a ''--''")
    case False
    then have "parseFlags_from spec fl rest (a # args) = parseFlags_from spec fl (rest @ [a]) args"
      by simp
    with Cons.IH [OF vf, of fl "rest @ [a]"] False show ?thesis
      by (simp add: nm)
  next
    case True
    show ?thesis
    proof (cases "lookupRule spec (flagKey a)")
      case None
      with True have "parseFlags_from spec fl rest (a # args) = parseFlags_from spec fl (rest @ [a]) args"
        by (simp add: flagKey_def Let_def)
      with Cons.IH [OF vf, of fl "rest @ [a]"] None show ?thesis
        by (auto simp: nm)
    next
      case (Some t)
      with ns [OF True] have t: "t = BooleanFlag" by (cases t) simp_all
      with Some True have "parseFlags_from spec fl rest (a # args) =
          parseFlags_from spec (setFlag fl (flagKey a) FlagTrue) rest args"
        by (simp add: flagKey_def Let_def)
      with Cons.IH [OF vf, of "setFlag fl (flagKey a) FlagTrue" rest] Some t True show ?thesis
        by (auto simp: nm setFlag_def)
    qed
  qed
qed

lemma runSync_valueFree:
  assumes "valueFree [(''once'', BooleanFlag), (''follow'', BooleanFlag), (''idle-exit'', StringFlag)] args"
    and "acquireStoreLock env fs (resolveStoreDir cfg (flag_store gf)) = (Inr rel, fs')"
  shows "runSync cfg env gf args fs =
     (Inr (Sync \<lparr>sync_release = rel, sync_idleExitMs = Some (Finite 30000),
                 sync_follow = (named ''follow'' args \<or> \<not> named ''once'' args)\<rparr>), fs')"
proof -
  let ?spec = "[(''once'', BooleanFlag), (''follow'', BooleanFlag), (''idle-exit'', StringFlag)]"
  from parseFlags_from_valueFree [OF assms(1), of Map.empty "[]"]
  obtain fl' rest' where p: "parseFlags args ?spec = Inr (fl', rest')"
    and f: "\<And>k. k \<noteq> ''__proto__'' \<Longrightarrow>
        fl' k = (if lookupRule ?spec k = Some BooleanFlag \<and> named k args then Some FlagTrue else None)"
    by (auto simp: parseFlags_def)
  have "fl' ''once'' = (if named ''once'' args then Some FlagTrue else None)"
    and "fl' ''follow'' = (if named ''follow'' args then Some FlagTrue else None)"
    and "fl' ''idle-exit'' = None"
    by (simp_all add: f lookupRule_def)
  with p assms(2) show ?thesis
    by (simp add: runSync_def orElse_def truthy_def parseDuration_30s)
qed

section \<open>Idle exit\<close>

lemma streak_Cons_0 [simp]: "streak (p # ps) 0 0 \<longleftrightarrow> quiescent p"
  by (simp add: streak_def)

lemma streak_Cons_0_Suc [simp]: "streak (p # ps) 0 (Suc k) \<longleftrightarrow> quiescent p \<and> streak ps 0 k"
proof
  assume a: "streak (p # ps) 0 (Suc k)"
  then have "quiescent ((p # ps) ! 0)" unfolding streak_def by blast
  moreover have "quiescent (ps ! i)" if "i \<le> k" for i
    using a that unfolding streak_def by (metis Suc_le_mono le0 nth_Cons_Suc)
  ultimately show "quiescent p \<and> streak ps 0 k" by (simp add: streak_def)
next
  assume a: "quiescent p \<and> streak ps 0 k"
  show "streak (p # ps) 0 (Suc k)"
    unfolding streak_def
  proof (intro allI impI)
    fix i assume "0 \<le> i \<and> i \<le> Suc k"
    with a show "quiescent ((p # ps) ! i)"
      by (cases i) (simp_all add: streak_def)
  qed
qed

lemma streak_Cons_Suc [simp]: "streak (p # ps) (Suc j) (Suc k) \<longleftrightarrow> streak ps j k"
proof
  assume a: "streak (p # ps) (Suc j) (Suc k)"
  have "quiescent (ps ! i)" if "j \<le> i" "i \<le> k" for i
    using a that unfolding streak_def by (metis Suc_le_mono nth_Cons_Suc)
  then show "streak ps j k" by (simp add: streak_def)
next
  assume a: "streak ps j k"
  show "streak (p # ps) (Suc j) (Suc k)"
    unfolding streak_def
  proof (intro allI impI)
    fix i assume b: "Suc j \<le> i \<and> i \<le> Suc k"
    then obtain i' where "i = Suc i'" by (cases i) simp_all
    with a b show "quiescent ((p # ps) ! i)" by (simp add: streak_def)
  qed
qed

lemma sustainedFrom_Cons_0:
  "sustainedFrom w s (p # ps) 0 \<longleftrightarrow> quiescent p \<and> w \<le> nowAtCheck p - windowStart s p"
  by (simp add: sustainedFrom_def)

lemma later_start:
  "(\<exists>j. 0 < j \<and> j \<le> Suc k \<and> streak (p # ps) j (Suc k) \<and> \<not> quiescent ((p # ps) ! (j - 1))
        \<and> w \<le> nowAtCheck ((p # ps) ! Suc k) - nowAtStart ((p # ps) ! j))
   \<longleftrightarrow> (\<not> quiescent p \<and> streak ps 0 k \<and> w \<le> nowAtCheck (ps ! k) - nowAtStart (ps ! 0))
     \<or> (\<exists>j. 0 < j \<and> j \<le> k \<and> streak ps j k \<and> \<not> quiescent (ps ! (j - 1))
            \<and> w \<le> nowAtCheck (ps ! k) - nowAtStart (ps ! j))"
  (is "?L \<longleftrightarrow> ?A \<or> ?B")
proof
  assume ?L
  then obtain j where j: "0 < j" "j \<le> Suc k" "streak (p # ps) j (Suc k)"
    "\<not> quiescent ((p # ps) ! (j - 1))" "w \<le> nowAtCheck ((p # ps) ! Suc k) - nowAtStart ((p # ps) ! j)"
    by blast
  from j(1) obtain j' where j': "j = Suc j'" by (cases j) simp_all
  show "?A \<or> ?B"
  proof (cases j')
    case 0
    with j j' have ?A by simp
    then show ?thesis ..
  next
    case (Suc j'')
    with j j' have "0 < j' \<and> j' \<le> k \<and> streak ps j' k \<and> \<not> quiescent (ps ! (j' - 1))
            \<and> w \<le> nowAtCheck (ps ! k) - nowAtStart (ps ! j')" by simp
    then have ?B by blast
    then show ?thesis ..
  qed
next
  assume "?A \<or> ?B"
  then show ?L
  proof
    assume ?A
    then have "0 < Suc 0 \<and> Suc 0 \<le> Suc k \<and> streak (p # ps) (Suc 0) (Suc k)
        \<and> \<not> quiescent ((p # ps) ! (Suc 0 - 1))
        \<and> w \<le> nowAtCheck ((p # ps) ! Suc k) - nowAtStart ((p # ps) ! Suc 0)" by simp
    then show ?L by blast
  next
    assume ?B
    then obtain j where j: "0 < j" "j \<le> k" "streak ps j k" "\<not> quiescent (ps ! (j - 1))"
      "w \<le> nowAtCheck (ps ! k) - nowAtStart (ps ! j)" by blast
    from j(1) obtain j' where "j = Suc j'" by (cases j) simp_all
    with j have "0 < Suc j \<and> Suc j \<le> Suc k \<and> streak (p # ps) (Suc j) (Suc k)
        \<and> \<not> quiescent ((p # ps) ! (Suc j - 1))
        \<and> w \<le> nowAtCheck ((p # ps) ! Suc k) - nowAtStart ((p # ps) ! Suc j)" by simp
    then show ?L by blast
  qed
qed

lemma sustainedFrom_Cons_Suc_active:
  assumes "\<not> quiescent p"
  shows "sustainedFrom w s (p # ps) (Suc k) \<longleftrightarrow> sustainedFrom w None ps k"
  unfolding sustainedFrom_def later_start using assms
  by (auto simp: windowStart_def unset_def)

lemma sustainedFrom_Cons_Suc_idle:
  assumes "quiescent p" and "windowStart s p \<noteq> 0"
  shows "sustainedFrom w s (p # ps) (Suc k) \<longleftrightarrow> sustainedFrom w (Some (windowStart s p)) ps k"
proof -
  from assms(2) have "windowStart (Some (windowStart s p)) (ps ! 0) = windowStart s p"
    by (simp add: windowStart_def unset_def)
  with assms(1) show ?thesis
    unfolding sustainedFrom_def later_start by auto
qed

lemma waitForIdle_from_active:
  "\<not> quiescent p \<Longrightarrow>
   waitForIdle_from w s (p # ps) = map_option Suc (waitForIdle_from w None ps)"
  by (auto simp: quiescent_def Let_def)

lemma waitForIdle_from_idle:
  "quiescent p \<Longrightarrow>
   waitForIdle_from w s (p # ps) =
     (if w \<le> nowAtCheck p - windowStart s p then Some 0
      else map_option Suc (waitForIdle_from w (Some (windowStart s p)) ps))"
  by (simp add: quiescent_def Let_def windowStart_def)

lemma all_less_Suc_shift: "(\<forall>k'<Suc n. P k') \<longleftrightarrow> P 0 \<and> (\<forall>k'<n. P (Suc k'))"
  by (auto simp: less_Suc_eq_0_disj)

lemma waitForIdle_from_sustained:
  assumes "\<forall>p\<in>set polls. nowAtStart p \<noteq> 0" and "s \<noteq> Some 0"
  shows "waitForIdle_from w s polls = Some k \<longleftrightarrow>
     k < length polls \<and> sustainedFrom w s polls k \<and> (\<forall>k'<k. \<not> sustainedFrom w s polls k')"
  using assms
proof (induction polls arbitrary: s k)
  case Nil
  show ?case by simp
next
  case (Cons p ps)
  from Cons.prems have ns: "\<forall>p\<in>set ps. nowAtStart p \<noteq> 0" and np: "nowAtStart p \<noteq> 0"
    by simp_all
  show ?case
  proof (cases "quiescent p")
    case False
    note step = waitForIdle_from_active [OF False, of w s ps]
    have ih: "waitForIdle_from w None ps = Some k0 \<longleftrightarrow>
        k0 < length ps \<and> sustainedFrom w None ps k0 \<and> (\<forall>k'<k0. \<not> sustainedFrom w None ps k')" for k0
      using Cons.IH [OF ns, of None k0] by simp
    show ?thesis
    proof (cases k)
      case 0
      with False show ?thesis by (simp del: waitForIdle_from.simps add: step sustainedFrom_Cons_0)
    next
      case (Suc k0)
      with False show ?thesis
        by (simp del: waitForIdle_from.simps add: step ih sustainedFrom_Cons_0 sustainedFrom_Cons_Suc_active all_less_Suc_shift)
    qed
  next
    case True
    let ?t = "windowStart s p"
    from np Cons.prems(2) have t0: "?t \<noteq> 0"
      by (cases s) (auto simp: windowStart_def unset_def)
    then have t1: "Some ?t \<noteq> Some 0" by simp
    note step = waitForIdle_from_idle [OF True, of w s ps]
    have ih: "waitForIdle_from w (Some ?t) ps = Some k0 \<longleftrightarrow>
        k0 < length ps \<and> sustainedFrom w (Some ?t) ps k0
        \<and> (\<forall>k'<k0. \<not> sustainedFrom w (Some ?t) ps k')" for k0
      using Cons.IH [OF ns t1, of k0] .
    show ?thesis
    proof (cases "w \<le> nowAtCheck p - ?t")
      case reached: True
      with True have z: "sustainedFrom w s (p # ps) 0" by (simp add: sustainedFrom_Cons_0)
      show ?thesis
      proof (cases k)
        case 0
        with reached z show ?thesis by (simp del: waitForIdle_from.simps add: step)
      next
        case (Suc k0)
        with reached z show ?thesis by (auto simp del: waitForIdle_from.simps simp add: step)
      qed
    next
      case wait: False
      with True have z: "\<not> sustainedFrom w s (p # ps) 0" by (simp add: sustainedFrom_Cons_0)
      show ?thesis
      proof (cases k)
        case 0
        with wait z show ?thesis by (simp del: waitForIdle_from.simps add: step)
      next
        case (Suc k0)
        with wait z show ?thesis
          by (simp del: waitForIdle_from.simps add: step ih sustainedFrom_Cons_Suc_idle [OF True t0] all_less_Suc_shift)
      qed
    qed
  qed
qed

lemma sustainedAt_None: "sustainedAt w polls k \<longleftrightarrow> sustainedFrom w None polls k"
proof
  assume "sustainedAt w polls k"
  then obtain j where j: "j \<le> k" "\<forall>i\<in>{j..k}. quiescent (polls ! i)"
    "j = 0 \<or> \<not> quiescent (polls ! (j - 1))"
    "w \<le> nowAtCheck (polls ! k) - nowAtStart (polls ! j)"
    unfolding sustainedAt_def by auto
  from j(2) have st: "streak polls j k" by (simp add: streak_def)
  show "sustainedFrom w None polls k"
  proof (cases "j = 0")
    case True
    with j st show ?thesis by (simp add: sustainedFrom_def windowStart_def unset_def)
  next
    case False
    with j st have "0 < j \<and> j \<le> k \<and> streak polls j k \<and> \<not> quiescent (polls ! (j - 1))
            \<and> w \<le> nowAtCheck (polls ! k) - nowAtStart (polls ! j)" by simp
    then show ?thesis unfolding sustainedFrom_def by blast
  qed
next
  assume "sustainedFrom w None polls k"
  then consider "streak polls 0 k \<and> w \<le> nowAtCheck (polls ! k) - nowAtStart (polls ! 0)"
    | j where "0 < j" "j \<le> k" "streak polls j k" "\<not> quiescent (polls ! (j - 1))"
        "w \<le> nowAtCheck (polls ! k) - nowAtStart (polls ! j)"
    unfolding sustainedFrom_def by (auto simp: windowStart_def unset_def)
  then show "sustainedAt w polls k"
  proof cases
    case 1
    then have "0 \<in> {..k} \<and> (\<forall>i\<in>{0..k}. quiescent (polls ! i)) \<and> (0 = (0::nat) \<or> \<not> quiescent (polls ! (0 - 1)))
        \<and> w \<le> nowAtCheck (polls ! k) - nowAtStart (polls ! 0)"
      by (simp add: streak_def)
    then show ?thesis unfolding sustainedAt_def by blast
  next
    case 2
    then have "j \<in> {..k} \<and> (\<forall>i\<in>{j..k}. quiescent (polls ! i)) \<and> (j = 0 \<or> \<not> quiescent (polls ! (j - 1)))
        \<and> w \<le> nowAtCheck (polls ! k) - nowAtStart (polls ! j)"
      by (simp add: streak_def)
    then show ?thesis unfolding sustainedAt_def by blast
  qed
qed

lemma waitForIdle_sustainedAt:
  assumes "\<forall>p\<in>set polls. nowAtStart p \<noteq> 0"
  shows "waitForIdle w polls = Some k \<longleftrightarrow>
     k < length polls \<and> sustainedAt w polls k \<and> (\<forall>k'<k. \<not> sustainedAt w polls k')"
  unfolding waitForIdle_def sustainedAt_None
  by (rule waitForIdle_from_sustained [OF assms]) simp

lemma polls_needed:
  fixes w :: int
  assumes "0 \<le> w"
  shows "w \<le> 500 * int (nat ((w + 499) div 500))"
    and "500 * int (nat ((w + 499) div 500)) < w + 500"
    and "w \<le> 500 * int m \<Longrightarrow> nat ((w + 499) div 500) \<le> m"
  using assms by auto

lemma idle_exit_timing:
  assumes t0: "0 < t0" and w: "0 \<le> w" and clock: "everyHalfSecond t0 polls"
    and n: "n = nat ((w + 499) div 500)" and len: "j + n < length polls"
    and edge: "j = 0 \<or> \<not> quiescent (polls ! (j - 1))"
    and idle: "\<forall>i\<in>{j..j + n}. quiescent (polls ! i)"
    and before: "\<forall>k'\<in>{..<j}. \<not> sustainedAt w polls k'"
  shows "waitForIdle w polls = Some (j + n)"
proof -
  have time: "nowAtStart (polls ! i) = t0 + 500 * int i" "nowAtCheck (polls ! i) = t0 + 500 * int i"
    if "i < length polls" for i
    using clock that by (simp_all add: everyHalfSecond_def)
  have nz: "\<forall>p\<in>set polls. nowAtStart p \<noteq> 0"
  proof
    fix p assume "p \<in> set polls"
    then obtain i where "i < length polls" "p = polls ! i" by (auto simp: in_set_conv_nth)
    with time(1) [of i] t0 show "nowAtStart p \<noteq> 0" by simp
  qed
  have now: "sustainedAt w polls (j + n)"
  proof -
    from len n w have "w \<le> nowAtCheck (polls ! (j + n)) - nowAtStart (polls ! j)"
      using polls_needed(1) [OF w] by (simp add: time)
    with idle edge have "j \<in> {..j + n} \<and> (\<forall>i\<in>{j..j + n}. quiescent (polls ! i))
        \<and> (j = 0 \<or> \<not> quiescent (polls ! (j - 1)))
        \<and> w \<le> nowAtCheck (polls ! (j + n)) - nowAtStart (polls ! j)" by simp
    then show ?thesis unfolding sustainedAt_def by blast
  qed
  have earlier: "\<not> sustainedAt w polls k'" if k': "k' < j + n" for k'
  proof (cases "k' < j")
    case True
    with before show ?thesis by simp
  next
    case False
    show ?thesis
    proof
      assume "sustainedAt w polls k'"
      then obtain j' where j': "j' \<le> k'" "\<forall>i\<in>{j'..k'}. quiescent (polls ! i)"
        "j' = 0 \<or> \<not> quiescent (polls ! (j' - 1))"
        "w \<le> nowAtCheck (polls ! k') - nowAtStart (polls ! j')"
        unfolding sustainedAt_def by auto
      from k' len j'(1) have b: "k' < length polls" "j' < length polls" by simp_all
      with j'(4) have "w \<le> 500 * int k' - 500 * int j'" by (simp add: time)
      with j'(1) have "w \<le> 500 * int (k' - j')" by simp
      from polls_needed(3) [OF w this] n have "n \<le> k' - j'" by simp
      with k' j'(1) have lt: "j' < j" by linarith
      then have "0 < j" by simp
      with edge have e: "\<not> quiescent (polls ! (j - 1))" by simp
      from lt False have "j - 1 \<in> {j'..k'}" by auto
      with j'(2) e show False by blast
    qed
  qed
  from now earlier len show ?thesis
    by (simp add: waitForIdle_sustainedAt [OF nz])
qed

text \<open>
  C5. On every trace of turns whose clock readings are not 0, \<^verbatim>\<open>waitForIdle\<close> returns in
  turn \<open>k\<close> exactly when \<open>k\<close> is the first turn at which quiescence is sustained for
  \<^verbatim>\<open>idleExitMs\<close>; a turn that sees activity resets the timer, the window of a later return
  being measured from a quiescent turn after it. With turns exactly 500 ms apart, once the
  queue is quiescent from turn \<open>j\<close> on the function returns \<open>n\<close> turns later, \<open>n\<close> the
  number of poll intervals that cover the window: no sooner than the window and less than
  one poll interval beyond it after the first quiescent turn. For a window of 2000 ms and
  quiescence reached at any instant after the previous turn, that is at least 2000 and less
  than 2500 ms after quiescence was reached.
\<close>

theorem idle_exit:
  "((\<forall>p\<in>set polls. nowAtStart p \<noteq> 0) \<longrightarrow>
      (waitForIdle w polls = Some k \<longleftrightarrow>
         k < length polls \<and> sustainedAt w polls k \<and> (\<forall>k'\<in>{..<k}. \<not> sustainedAt w polls k'))
      \<and> (\<forall>i. waitForIdle w polls = Some k \<and> i \<le> k \<and> \<not> quiescent (polls ! i) \<longrightarrow>
            (\<exists>j\<in>{i<..k}. (\<forall>m\<in>{j..k}. quiescent (polls ! m))
               \<and> w \<le> nowAtCheck (polls ! k) - nowAtStart (polls ! j))))
   \<and> (0 < t0 \<and> 0 \<le> w \<and> everyHalfSecond t0 polls \<and> n = nat ((w + 499) div 500)
        \<and> j + n < length polls \<and> (j = 0 \<or> \<not> quiescent (polls ! (j - 1)))
        \<and> (\<forall>i\<in>{j..j + n}. quiescent (polls ! i)) \<and> (\<forall>k'\<in>{..<j}. \<not> sustainedAt w polls k') \<longrightarrow>
      waitForIdle w polls = Some (j + n)
      \<and> w \<le> nowAtCheck (polls ! (j + n)) - nowAtStart (polls ! j)
      \<and> nowAtCheck (polls ! (j + n)) - nowAtStart (polls ! j) < w + 500
      \<and> (w = 2000 \<longrightarrow>
           (\<forall>q. nowAtStart (polls ! j) - 500 < q \<and> q \<le> nowAtStart (polls ! j) \<longrightarrow>
                2000 \<le> nowAtCheck (polls ! (j + n)) - q \<and> nowAtCheck (polls ! (j + n)) - q < 2500)))"
proof (intro conjI impI allI)
  assume nz: "\<forall>p\<in>set polls. nowAtStart p \<noteq> 0"
  show "waitForIdle w polls = Some k \<longleftrightarrow>
         k < length polls \<and> sustainedAt w polls k \<and> (\<forall>k'\<in>{..<k}. \<not> sustainedAt w polls k')"
    unfolding waitForIdle_sustainedAt [OF nz, of w k] by auto
  fix i
  assume a: "waitForIdle w polls = Some k \<and> i \<le> k \<and> \<not> quiescent (polls ! i)"
  with waitForIdle_sustainedAt [OF nz, of w k] have "sustainedAt w polls k" by simp
  then obtain j where j: "j \<le> k" "\<forall>m\<in>{j..k}. quiescent (polls ! m)"
    "w \<le> nowAtCheck (polls ! k) - nowAtStart (polls ! j)"
    unfolding sustainedAt_def by auto
  from a j(2) have "\<not> (j \<le> i)" by auto
  with j(1) have "j \<in> {i<..k}" by simp
  with j(2,3) show "\<exists>j\<in>{i<..k}. (\<forall>m\<in>{j..k}. quiescent (polls ! m))
               \<and> w \<le> nowAtCheck (polls ! k) - nowAtStart (polls ! j)" by blast
next
  assume a: "0 < t0 \<and> 0 \<le> w \<and> everyHalfSecond t0 polls \<and> n = nat ((w + 499) div 500)
        \<and> j + n < length polls \<and> (j = 0 \<or> \<not> quiescent (polls ! (j - 1)))
        \<and> (\<forall>i\<in>{j..j + n}. quiescent (polls ! i)) \<and> (\<forall>k'\<in>{..<j}. \<not> sustainedAt w polls k')"
  then show "waitForIdle w polls = Some (j + n)"
    by (intro idle_exit_timing [of t0 w polls n j]) simp_all
  from a have w: "0 \<le> w" and n: "n = nat ((w + 499) div 500)" by simp_all
  from a have "nowAtStart (polls ! j) = t0 + 500 * int j"
    and "nowAtCheck (polls ! (j + n)) = t0 + 500 * int (j + n)"
    by (simp_all add: everyHalfSecond_def)
  then have d: "nowAtCheck (polls ! (j + n)) - nowAtStart (polls ! j) = 500 * int n" by simp
  from polls_needed(1,2) [OF w] n d
  show b1: "w \<le> nowAtCheck (polls ! (j + n)) - nowAtStart (polls ! j)"
    and b2: "nowAtCheck (polls ! (j + n)) - nowAtStart (polls ! j) < w + 500"
    by simp_all
  assume w2: "w = 2000"
  with n have "n = 4" by simp
  with d have e: "nowAtCheck (polls ! (j + n)) = nowAtStart (polls ! j) + 2000" by simp
  fix q assume "nowAtStart (polls ! j) - 500 < q \<and> q \<le> nowAtStart (polls ! j)"
  with e show "2000 \<le> nowAtCheck (polls ! (j + n)) - q" and "nowAtCheck (polls ! (j + n)) - q < 2500"
    by simp_all
qed

lemma samplePolls_nth:
  "i < 7 \<Longrightarrow> samplePolls ! i =
     \<lparr>stats = \<lparr>pending = 0, in_progress = (if i = 0 then 1 else 0), idle_jobs = 1,
                         error_jobs = 0, processing = (i = 0)\<rparr>,
               nowAtStart = 1000 + 500 * int i, nowAtCheck = 1000 + 500 * int i\<rparr>"
  by (simp add: samplePolls_def)

lemma samplePolls_length: "length samplePolls = 7"
  by (simp add: samplePolls_def)

lemma samplePolls_quiescent: "i < 7 \<Longrightarrow> quiescent (samplePolls ! i) \<longleftrightarrow> i \<noteq> 0"
  by (simp add: samplePolls_nth quiescent_def)

theorem idle_exit_witness:
  "waitForIdle 2000 samplePolls = Some 5
   \<and> sustainedAt 2000 samplePolls 5
   \<and> nowAtCheck (samplePolls ! 5) - nowAtStart (samplePolls ! 1) = 2000"
proof -
  have nz: "\<forall>p\<in>set samplePolls. nowAtStart p \<noteq> 0"
  proof
    fix p assume "p \<in> set samplePolls"
    then obtain i where "i < 7" "p = samplePolls ! i"
      by (auto simp: in_set_conv_nth samplePolls_length)
    then show "nowAtStart p \<noteq> 0" by (simp add: samplePolls_nth)
  qed
  have clock: "everyHalfSecond 1000 samplePolls"
    unfolding everyHalfSecond_def samplePolls_length
  proof
    fix i :: nat assume "i \<in> {..<7}"
    then have "i < 7" by simp
    then show "nowAtStart (samplePolls ! i) = 1000 + 500 * int i
        \<and> nowAtCheck (samplePolls ! i) = 1000 + 500 * int i"
      by (simp add: samplePolls_nth)
  qed
  have n: "(4::nat) = nat ((2000 + 499) div 500)" by simp
  have len: "1 + 4 < length samplePolls" by (simp add: samplePolls_length)
  have edge: "(1::nat) = 0 \<or> \<not> quiescent (samplePolls ! (1 - 1))"
    by (simp add: samplePolls_quiescent)
  have idle: "\<forall>i\<in>{1..1 + 4}. quiescent (samplePolls ! i)"
  proof
    fix i :: nat assume "i \<in> {1..1 + 4}"
    then have "i < 7" "i \<noteq> 0" by simp_all
    then show "quiescent (samplePolls ! i)" by (simp add: samplePolls_quiescent)
  qed
  have "\<not> sustainedAt 2000 samplePolls 0"
    by (simp add: sustainedAt_def samplePolls_quiescent)
  then have before: "\<forall>k'\<in>{..<1}. \<not> sustainedAt 2000 samplePolls k'"
    by simp
  note t = idle_exit [of samplePolls 2000 5 1000 4 1]
  have a: "(0::int) < 1000" and b: "(0::int) \<le> 2000" by simp_all
  from a b clock n len edge idle before
  have pre: "0 < (1000::int) \<and> 0 \<le> (2000::int) \<and> everyHalfSecond 1000 samplePolls
        \<and> (4::nat) = nat ((2000 + 499) div 500)
        \<and> 1 + 4 < length samplePolls \<and> ((1::nat) = 0 \<or> \<not> quiescent (samplePolls ! (1 - 1)))
        \<and> (\<forall>i\<in>{1..1 + 4}. quiescent (samplePolls ! i))
        \<and> (\<forall>k'\<in>{..<1}. \<not> sustainedAt 2000 samplePolls k')"
    by blast
  from mp [OF t [THEN conjunct2] pre]
  have r: "waitForIdle 2000 samplePolls = Some (1 + 4)" by (rule conjunct1)
  then have r5: "waitForIdle 2000 samplePolls = Some 5" by simp
  from mp [OF t [THEN conjunct1] nz]
  have "waitForIdle 2000 samplePolls = Some 5 \<longleftrightarrow>
         5 < length samplePolls \<and> sustainedAt 2000 samplePolls 5
         \<and> (\<forall>k'\<in>{..<5}. \<not> sustainedAt 2000 samplePolls k')"
    by (rule conjunct1)
  with r5 have s: "sustainedAt 2000 samplePolls 5" by blast
  have "nowAtCheck (samplePolls ! 5) - nowAtStart (samplePolls ! 1) = 2000"
    by (simp add: samplePolls_nth)
  with r5 s show ?thesis by simp
qed

end
